theory Spec2Isabelle
  imports
    Complex_Main
    "HOL-Library.List_Lexorder"
    "HOL-Library.Char_ord"
    "HOL-Library.Multiset"
begin

section \<open>Time values\<close>

text \<open>
  A Python \<^verbatim>\<open>datetime\<close> that is aware and in UTC is the integer number of microseconds
  since the epoch; a \<^verbatim>\<open>timedelta\<close> is an integer number of microseconds (both have
  microsecond resolution in Python).  A local calendar date is the number of days since
  1970-01-01, a wall-clock time of day the number of microseconds since midnight.  The
  bounded range of \<^verbatim>\<open>datetime\<close> (years 1 to 9999) is not modelled.
\<close>

type_synonym datetime = int
type_synonym timedelta = int
type_synonym date = int
type_synonym time_of_day = int

definition hours :: "int \<Rightarrow> timedelta" where
  "hours h = h * 3600000000"

definition days :: "int \<Rightarrow> timedelta" where
  "days d = d * 86400000000"

text \<open>
  \<^verbatim>\<open>timedelta.total_seconds()\<close> returns a float; the model returns the exact quotient,
  so float rounding is idealised as exact arithmetic on \<^typ>\<open>real\<close>.
\<close>

definition total_seconds :: "timedelta \<Rightarrow> real" where
  "total_seconds td = real_of_int td / 1000000"

text \<open>
  \<^verbatim>\<open>timedelta / 2\<close> rounds the quotient to the nearest microsecond, ties to even.
\<close>

definition td_div2 :: "timedelta \<Rightarrow> timedelta" where
  "td_div2 d = (let q = d div 2; r = d mod 2 in if r = 1 \<and> odd q then q + 1 else q)"

definition ensure_aware_utc :: "datetime \<Rightarrow> datetime" where
  "ensure_aware_utc dt = dt"

section \<open>Interval algebra\<close>

record TimeInterval =
  t_start :: datetime
  t_end :: datetime

definition overlap_seconds :: "TimeInterval \<Rightarrow> TimeInterval \<Rightarrow> real" where
  "overlap_seconds self other =
     (let s = max (t_start self) (t_start other);
          e = min (t_end self) (t_end other);
          delta = total_seconds (e - s)
      in max 0 delta)"

text \<open>
  The merge at the end of \<^verbatim>\<open>_get_business_intervals_for_window\<close>: the list
  \<^verbatim>\<open>merged\<close> grows at its end, and its last element is updated in place.
\<close>

fun merge_loop :: "TimeInterval list \<Rightarrow> TimeInterval list \<Rightarrow> TimeInterval list" where
  "merge_loop merged [] = merged"
| "merge_loop merged (it # its) =
     (let lst = last merged in
      if t_start it \<le> t_end lst
      then merge_loop (butlast merged @ [lst\<lparr>t_end := max (t_end lst) (t_end it)\<rparr>]) its
      else merge_loop (merged @ [it]) its)"

definition merge_intervals :: "TimeInterval list \<Rightarrow> TimeInterval list" where
  "merge_intervals biz_intervals =
     (case biz_intervals of
        [] \<Rightarrow> []
      | b # bs \<Rightarrow> merge_loop [b] bs)"

text \<open>
  The operation as the specification words it: a running interval absorbs every
  following interval that starts at or before its end, and is emitted when the next
  interval starts after it.
\<close>

fun absorb :: "TimeInterval \<Rightarrow> TimeInterval list \<Rightarrow> TimeInterval list" where
  "absorb running [] = [running]"
| "absorb running (cur # rest) =
     (if t_start cur \<le> t_end running
      then absorb (running\<lparr>t_end := max (t_end running) (t_end cur)\<rparr>) rest
      else running # absorb cur rest)"

definition merge_sorted_spec :: "TimeInterval list \<Rightarrow> TimeInterval list" where
  "merge_sorted_spec xs = (case xs of [] \<Rightarrow> [] | x # rest \<Rightarrow> absorb x rest)"

definition points :: "TimeInterval \<Rightarrow> int set" where
  "points i = {t_start i ..< t_end i}"

definition point_set :: "TimeInterval list \<Rightarrow> int set" where
  "point_set xs = (\<Union>i \<in> set xs. points i)"

definition pairwise_disjoint :: "TimeInterval list \<Rightarrow> bool" where
  "pairwise_disjoint xs =
     (\<forall>i < length xs. \<forall>j < length xs. i \<noteq> j \<longrightarrow> points (xs ! i) \<inter> points (xs ! j) = {})"

section \<open>Stored entities\<close>

datatype error = AttributeError | TypeError | ZoneInfoNotFoundError | OSError

record Poll =
  poll_store_id :: string
  timestamp_utc :: "datetime option"
  poll_status :: "string option"

record BusinessHour =
  bh_store_id :: string
  day_of_week :: "int option"
  start_time_local :: "time_of_day option"
  end_time_local :: "time_of_day option"

record StoreTimezone =
  tz_store_id :: string
  timezone_str :: "string option"

record database =
  polls :: "Poll list"
  business_hours :: "BusinessHour list"
  store_timezones :: "StoreTimezone list"

section \<open>Reading the stored entities\<close>

text \<open>
  \<^verbatim>\<open>_get_now_from_db\<close>: the greatest poll timestamp (SQL \<^verbatim>\<open>max\<close> skips NULL), or
  the wall clock, which is a parameter here, when there is none.
\<close>

definition get_now_from_db :: "datetime \<Rightarrow> database \<Rightarrow> datetime" where
  "get_now_from_db wall_clock db =
     (case List.map_filter timestamp_utc (polls db) of
        [] \<Rightarrow> wall_clock
      | t # ts \<Rightarrow> ensure_aware_utc (fold max ts t))"

definition gather_store_ids :: "database \<Rightarrow> string list" where
  "gather_store_ids db =
     (let ids = {};
          ids = ids \<union> set (map poll_store_id (polls db));
          ids = ids \<union> set (map bh_store_id (business_hours db));
          ids = ids \<union> set (map tz_store_id (store_timezones db))
      in sorted_list_of_set ids)"

text \<open>
  \<^verbatim>\<open>_fetch_polls_for_store\<close>: the SQL comparisons drop rows whose timestamp is NULL;
  the query selects the pair of timestamp and status, and \<^verbatim>\<open>ORDER BY timestamp_utc ASC\<close>
  is a sort by timestamp (rows with equal timestamps are kept here in table order).
\<close>

definition fetch_polls_for_store ::
  "database \<Rightarrow> string \<Rightarrow> datetime \<Rightarrow> datetime \<Rightarrow> timedelta \<Rightarrow> (datetime \<times> string option) list" where
  "fetch_polls_for_store db store_id window_start window_end margin =
     (let q = List.map_filter
                (\<lambda>p. case timestamp_utc p of
                        None \<Rightarrow> None
                      | Some t \<Rightarrow>
                          if poll_store_id p = store_id
                             \<and> t \<ge> window_start - margin \<and> t \<le> window_end + margin
                          then Some (t, poll_status p) else None)
                (polls db);
          q = sort_key fst q;
          results = map (\<lambda>r. (ensure_aware_utc (fst r), snd r)) q
      in results)"

definition DEFAULT_TZ :: string where
  "DEFAULT_TZ = ''America/Chicago''"

definition get_timezone_for_store :: "database \<Rightarrow> string \<Rightarrow> string" where
  "get_timezone_for_store db store_id =
     (case find (\<lambda>r. tz_store_id r = store_id) (store_timezones db) of
        None \<Rightarrow> DEFAULT_TZ
      | Some tz_row \<Rightarrow>
          (case timezone_str tz_row of
             None \<Rightarrow> DEFAULT_TZ
           | Some s \<Rightarrow> if s \<noteq> [] then s else DEFAULT_TZ))"

section \<open>Status reconstruction\<close>

text \<open>
  \<^verbatim>\<open>_build_status_intervals_for_window\<close>: its three loops append to a list; each is a
  recursion over the index range (or the list) with the list built so far as accumulator.
  Every index the loops read is in range.
\<close>

type_synonym 's poll_row = "datetime \<times> 's"
type_synonym 's status_interval = "datetime \<times> datetime \<times> 's"

fun mids_loop :: "'s poll_row list \<Rightarrow> nat list \<Rightarrow> datetime list \<Rightarrow> datetime list" where
  "mids_loop ps [] mids = mids"
| "mids_loop ps (i # is) mids =
     mids_loop ps is (mids @ [fst (ps ! i) + td_div2 (fst (ps ! (i + 1)) - fst (ps ! i))])"

fun intervals_loop ::
  "'s poll_row list \<Rightarrow> datetime list \<Rightarrow> timedelta \<Rightarrow> nat list \<Rightarrow> 's status_interval list
   \<Rightarrow> 's status_interval list" where
  "intervals_loop ps mids margin [] intervals = intervals"
| "intervals_loop ps mids margin (i # is) intervals =
     (let n = length ps;
          s = (if i > 0 then mids ! (i - 1) else fst (ps ! i) - margin);
          e = (if i < n - 1 then mids ! i else fst (ps ! i) + margin)
      in intervals_loop ps mids margin is (intervals @ [(s, e, snd (ps ! i))]))"

fun clip_loop ::
  "datetime \<Rightarrow> datetime \<Rightarrow> 's status_interval list \<Rightarrow> 's status_interval list
   \<Rightarrow> 's status_interval list" where
  "clip_loop window_ext_start window_ext_end [] clipped = clipped"
| "clip_loop window_ext_start window_ext_end ((s, e, status) # rest) clipped =
     (let s2 = max s window_ext_start;
          e2 = min e window_ext_end
      in if e2 > s2
         then clip_loop window_ext_start window_ext_end rest (clipped @ [(s2, e2, status)])
         else clip_loop window_ext_start window_ext_end rest clipped)"

definition build_status_intervals_for_window ::
  "'s poll_row list \<Rightarrow> datetime \<Rightarrow> datetime \<Rightarrow> timedelta \<Rightarrow> 's status_interval list" where
  "build_status_intervals_for_window ps window_start window_end margin =
     (if ps = [] then []
      else
        let n = length ps;
            mids = mids_loop ps [0 ..< n - 1] [];
            intervals = intervals_loop ps mids margin [0 ..< n] [];
            window_ext_start = window_start - margin;
            window_ext_end = window_end + margin
        in clip_loop window_ext_start window_ext_end intervals [])"

text \<open>
  The reconstruction as the specification words it: midpoints, start and end of the
  interval of poll \<open>i\<close>, then clipping.
\<close>

definition mid :: "'s poll_row list \<Rightarrow> nat \<Rightarrow> datetime" where
  "mid p i = fst (p ! i) + td_div2 (fst (p ! (i + 1)) - fst (p ! i))"

definition interval_start :: "'s poll_row list \<Rightarrow> timedelta \<Rightarrow> nat \<Rightarrow> datetime" where
  "interval_start p M i = (if i > 0 then mid p (i - 1) else fst (p ! 0) - M)"

definition interval_end :: "'s poll_row list \<Rightarrow> timedelta \<Rightarrow> nat \<Rightarrow> datetime" where
  "interval_end p M i =
     (if i < length p - 1 then mid p i else fst (p ! (length p - 1)) + M)"

definition clip :: "datetime \<Rightarrow> datetime \<Rightarrow> 's status_interval \<Rightarrow> 's status_interval" where
  "clip lo hi x = (case x of (s, e, st) \<Rightarrow> (max s lo, min e hi, st))"

definition nonempty :: "'s status_interval \<Rightarrow> bool" where
  "nonempty x = (case x of (s, e, st) \<Rightarrow> s < e)"

definition reconstruction_spec ::
  "'s poll_row list \<Rightarrow> datetime \<Rightarrow> datetime \<Rightarrow> timedelta \<Rightarrow> 's status_interval list" where
  "reconstruction_spec p W_start W_end M =
     filter nonempty
       (map (\<lambda>i. clip (W_start - M) (W_end + M)
                    (interval_start p M i, interval_end p M i, snd (p ! i)))
            [0 ..< length p])"


section \<open>Business-hours expansion\<close>

text \<open>
  A \<^verbatim>\<open>ZoneInfo\<close> object is known by the two conversions the code uses: the UTC offset
  that holds at a UTC instant (\<^verbatim>\<open>astimezone(tz)\<close>) and the offset the zone gives a
  naive local wall-clock time (\<^verbatim>\<open>replace(tzinfo=tz).astimezone(UTC)\<close>).  The zone
  database is outside the repository: the constructor \<^verbatim>\<open>ZoneInfo(key)\<close> is a parameter
  \<open>zoneinfo\<close>, with \<open>None\<close> where it raises.
\<close>

record tzinfo =
  utcoffset_at_utc :: "datetime \<Rightarrow> timedelta"
  utcoffset_at_local :: "datetime \<Rightarrow> timedelta"

type_synonym zone_db = "string \<Rightarrow> tzinfo option"

definition local_date :: "tzinfo \<Rightarrow> datetime \<Rightarrow> date" where
  "local_date tz dt = (dt + utcoffset_at_utc tz dt) div 86400000000"

definition weekday :: "date \<Rightarrow> int" where
  "weekday d = (d + 3) mod 7"

definition combine :: "date \<Rightarrow> time_of_day \<Rightarrow> datetime" where
  "combine d t = d * 86400000000 + t"

definition local_to_utc :: "tzinfo \<Rightarrow> datetime \<Rightarrow> datetime" where
  "local_to_utc tz dt = dt - utcoffset_at_local tz dt"

text \<open>The dictionary \<^verbatim>\<open>bh_by_dow\<close>, built with \<^verbatim>\<open>setdefault(...).append\<close>.\<close>

definition group_by_dow :: "BusinessHour list \<Rightarrow> (int option \<rightharpoonup> BusinessHour list)" where
  "group_by_dow bh_rows =
     fold (\<lambda>bh m. m(day_of_week bh \<mapsto> (case m (day_of_week bh) of None \<Rightarrow> [] | Some l \<Rightarrow> l) @ [bh]))
          bh_rows Map.empty"

text \<open>
  The inner loop over the rows of one local date; \<^verbatim>\<open>datetime.combine\<close> raises
  \<^verbatim>\<open>TypeError\<close> on a NULL time.
\<close>

fun rows_loop ::
  "tzinfo \<Rightarrow> datetime \<Rightarrow> datetime \<Rightarrow> date \<Rightarrow> BusinessHour list \<Rightarrow> TimeInterval list
   \<Rightarrow> error + TimeInterval list" where
  "rows_loop tz window_start_utc window_end_utc cur_date [] biz_intervals = Inr biz_intervals"
| "rows_loop tz window_start_utc window_end_utc cur_date (bh # rows) biz_intervals =
     (case start_time_local bh of
        None \<Rightarrow> Inl TypeError
      | Some st \<Rightarrow>
     (case end_time_local bh of
        None \<Rightarrow> Inl TypeError
      | Some et \<Rightarrow>
          let s_local = combine cur_date st;
              e_local = combine cur_date et;
              e_local = (if e_local \<le> s_local then e_local + days 1 else e_local);
              s_utc = local_to_utc tz s_local;
              e_utc = local_to_utc tz e_local;
              interval_start = max s_utc window_start_utc;
              interval_end = min e_utc window_end_utc
          in if interval_end > interval_start
             then rows_loop tz window_start_utc window_end_utc cur_date rows
                    (biz_intervals @ [\<lparr>t_start = interval_start, t_end = interval_end\<rparr>])
             else rows_loop tz window_start_utc window_end_utc cur_date rows biz_intervals))"

function dates_loop ::
  "tzinfo \<Rightarrow> (int option \<rightharpoonup> BusinessHour list) \<Rightarrow> datetime \<Rightarrow> datetime \<Rightarrow> date \<Rightarrow> date
   \<Rightarrow> TimeInterval list \<Rightarrow> error + TimeInterval list" where
  "dates_loop tz bh_by_dow window_start_utc window_end_utc cur_date end_date biz_intervals =
     (if cur_date \<le> end_date
      then
        let dow = weekday cur_date;
            rows = (case bh_by_dow (Some dow) of None \<Rightarrow> [] | Some l \<Rightarrow> l)
        in case rows_loop tz window_start_utc window_end_utc cur_date rows biz_intervals of
             Inl err \<Rightarrow> Inl err
           | Inr biz_intervals' \<Rightarrow>
               dates_loop tz bh_by_dow window_start_utc window_end_utc (cur_date + 1) end_date
                 biz_intervals'
      else Inr biz_intervals)"
  by pat_completeness auto
termination
  by (relation "measure (\<lambda>(tz, m, ws, we, cur_date, end_date, biz). nat (end_date + 1 - cur_date))")
     auto

declare dates_loop.simps [simp del]

definition get_business_intervals_for_window ::
  "zone_db \<Rightarrow> database \<Rightarrow> string \<Rightarrow> datetime \<Rightarrow> datetime \<Rightarrow> string option
   \<Rightarrow> error + TimeInterval list" where
  "get_business_intervals_for_window zoneinfo db store_id window_start_utc window_end_utc tz_str =
     (let tzname = (case tz_str of None \<Rightarrow> DEFAULT_TZ | Some s \<Rightarrow> if s \<noteq> [] then s else DEFAULT_TZ)
      in case (case zoneinfo tzname of Some tz \<Rightarrow> Some tz | None \<Rightarrow> zoneinfo DEFAULT_TZ) of
           None \<Rightarrow> Inl ZoneInfoNotFoundError
         | Some tz \<Rightarrow>
             let bh_rows = filter (\<lambda>bh. bh_store_id bh = store_id) (business_hours db)
             in if bh_rows = [] then Inr [\<lparr>t_start = window_start_utc, t_end = window_end_utc\<rparr>]
                else
                  let bh_by_dow = group_by_dow bh_rows;
                      start_date = local_date tz window_start_utc - 1;
                      end_date = local_date tz window_end_utc + 1
                  in case dates_loop tz bh_by_dow window_start_utc window_end_utc
                            start_date end_date [] of
                       Inl err \<Rightarrow> Inl err
                     | Inr biz_intervals \<Rightarrow>
                         if biz_intervals = [] then Inr []
                         else Inr (merge_intervals (sort_key t_start biz_intervals)))"

section \<open>Per-store aggregation\<close>

definition seconds_to_hours :: "real \<Rightarrow> real" where
  "seconds_to_hours sec = sec / 3600"

definition seconds_to_minutes :: "real \<Rightarrow> real" where
  "seconds_to_minutes sec = sec / 60"

text \<open>
  \<^verbatim>\<open>str.lower()\<close> on the bytes of the string: the ASCII capitals are the only
  characters whose lower-case form is a letter of \<^verbatim>\<open>active\<close>.
\<close>

definition lower_char :: "char \<Rightarrow> char" where
  "lower_char c =
     (if CHR ''A'' \<le> c \<and> c \<le> CHR ''Z'' then char_of (of_char c + (32::nat)) else c)"

definition lower :: "string \<Rightarrow> string" where
  "lower s = map lower_char s"

text \<open>
  The nested loops of \<^verbatim>\<open>_compute\<close>; \<^verbatim>\<open>s_status.lower()\<close> raises
  \<^verbatim>\<open>AttributeError\<close> on a NULL status, and is reached only for a positive overlap.
\<close>

fun status_loop ::
  "TimeInterval \<Rightarrow> (string option) status_interval list \<Rightarrow> real \<Rightarrow> error + real" where
  "status_loop biz [] uptime_seconds = Inr uptime_seconds"
| "status_loop biz ((s_start, s_end, s_status) # rest) uptime_seconds =
     (let overlap = overlap_seconds \<lparr>t_start = s_start, t_end = s_end\<rparr> biz
      in if overlap \<le> 0 then status_loop biz rest uptime_seconds
         else case s_status of
                None \<Rightarrow> Inl AttributeError
              | Some st \<Rightarrow>
                  if lower st = ''active''
                  then status_loop biz rest (uptime_seconds + overlap)
                  else status_loop biz rest uptime_seconds)"

fun biz_loop ::
  "(string option) status_interval list \<Rightarrow> TimeInterval list \<Rightarrow> real \<Rightarrow> error + real" where
  "biz_loop status_intervals [] uptime_seconds = Inr uptime_seconds"
| "biz_loop status_intervals (biz # rest) uptime_seconds =
     (case status_loop biz status_intervals uptime_seconds of
        Inl err \<Rightarrow> Inl err
      | Inr uptime_seconds' \<Rightarrow> biz_loop status_intervals rest uptime_seconds')"

definition compute ::
  "(string option) status_interval list \<Rightarrow> TimeInterval list \<Rightarrow> error + real \<times> real" where
  "compute status_intervals biz_intervals =
     (let total_business_seconds =
            sum_list (map (\<lambda>it. total_seconds (t_end it - t_start it)) biz_intervals)
      in if total_business_seconds \<le> 0 then Inr (0, 0)
         else if status_intervals = [] then Inr (0, total_business_seconds)
         else case biz_loop status_intervals biz_intervals 0 of
                Inl err \<Rightarrow> Inl err
              | Inr uptime_seconds \<Rightarrow>
                  let downtime_seconds = total_business_seconds - uptime_seconds
                  in Inr (max 0 uptime_seconds, max 0 downtime_seconds))"

text \<open>
  \<^verbatim>\<open>round(x, 2)\<close>.  Python rounds the binary float: the decimal nearest to the value
  the float really has.  Seconds are exact reals here, so the model rounds the exact
  value to two decimals, ties to even.  The two differ where the exact value is a
  decimal tie or the float is not the exact value (the float nearest to 59.995 is below
  it and gives 59.99, the exact value gives 60).  No property below speaks about a
  rounded value.
\<close>

definition round_half_even :: "real \<Rightarrow> int" where
  "round_half_even x =
     (let f = \<lfloor>x\<rfloor>; r = x - of_int f
      in if r < 1 / 2 then f else if r > 1 / 2 then f + 1 else if even f then f else f + 1)"

definition round2 :: "real \<Rightarrow> real" where
  "round2 x = of_int (round_half_even (x * 100)) / 100"

record StoreRow =
  row_store_id :: string
  uptime_last_hour_minutes :: real
  uptime_last_day_hours :: real
  uptime_last_week_hours :: real
  downtime_last_hour_minutes :: real
  downtime_last_day_hours :: real
  downtime_last_week_hours :: real

definition compute_uptime_for_store_internal ::
  "zone_db \<Rightarrow> database \<Rightarrow> string \<Rightarrow> datetime \<Rightarrow> error + StoreRow" where
  "compute_uptime_for_store_internal zoneinfo db store_id now_utc =
     (let window_hour_start = now_utc - hours 1;
          window_day_start = now_utc - hours 24;
          window_week_start = now_utc - days 7;
          margin = hours 12;
          tz_str = get_timezone_for_store db store_id;
          overall_start = window_week_start - days 1;
          overall_end = now_utc + hours 1;
          ps = fetch_polls_for_store db store_id overall_start overall_end margin;
          status_intervals = build_status_intervals_for_window ps overall_start overall_end margin
      in
      case get_business_intervals_for_window zoneinfo db store_id window_hour_start now_utc
             (Some tz_str) of Inl err \<Rightarrow> Inl err | Inr biz_hour \<Rightarrow>
      case get_business_intervals_for_window zoneinfo db store_id window_day_start now_utc
             (Some tz_str) of Inl err \<Rightarrow> Inl err | Inr biz_day \<Rightarrow>
      case get_business_intervals_for_window zoneinfo db store_id window_week_start now_utc
             (Some tz_str) of Inl err \<Rightarrow> Inl err | Inr biz_week \<Rightarrow>
      case compute status_intervals biz_hour of Inl err \<Rightarrow> Inl err | Inr (u_hr, d_hr) \<Rightarrow>
      case compute status_intervals biz_day of Inl err \<Rightarrow> Inl err | Inr (u_day, d_day) \<Rightarrow>
      case compute status_intervals biz_week of Inl err \<Rightarrow> Inl err | Inr (u_week, d_week) \<Rightarrow>
        Inr \<lparr>row_store_id = store_id,
             uptime_last_hour_minutes = round2 (seconds_to_minutes u_hr),
             uptime_last_day_hours = round2 (seconds_to_hours u_day),
             uptime_last_week_hours = round2 (seconds_to_hours u_week),
             downtime_last_hour_minutes = round2 (seconds_to_minutes d_hr),
             downtime_last_day_hours = round2 (seconds_to_hours d_day),
             downtime_last_week_hours = round2 (seconds_to_hours d_week)\<rparr>)"


section \<open>Job state\<close>

record Report =
  rep_status :: string
  percent_complete :: real
  created_at :: datetime
  finished_at :: "datetime option"
  csv_path :: "string option"

type_synonym reports = "string \<rightharpoonup> Report"

section \<open>Report orchestrator\<close>

text \<open>
  \<^verbatim>\<open>as_completed\<close> yields every submitted future once, in an order that the program
  does not fix: futures that are already finished when it is called come first, in the
  iteration order of a set, the others as they finish.  The order is a parameter here:
  \<open>sched\<close> gives, for each yield, the position among the futures not yet yielded of the
  one that is yielded next (taken modulo their number; an exhausted schedule picks the
  first).  Every list of numbers is a schedule, and every order of the futures is the
  result of one.  A schedule says nothing about the order in which the workers finish.
\<close>

function as_completed :: "nat list \<Rightarrow> 'a list \<Rightarrow> 'a list" where
  "as_completed sched pending =
     (if pending = [] then []
      else
        let k = (case sched of [] \<Rightarrow> 0 | c # _ \<Rightarrow> c mod length pending)
        in (pending ! k) # as_completed (tl sched) (take k pending @ drop (Suc k) pending))"
  by pat_completeness auto
termination
  by (relation "measure (\<lambda>(sched, pending). length pending)")
     (auto split: list.splits simp: less_eq_Suc_le [symmetric])

declare as_completed.simps [simp del]

definition truthy :: "string option \<Rightarrow> bool" where
  "truthy s = (case s of None \<Rightarrow> False | Some v \<Rightarrow> v \<noteq> [])"

definition update_every :: "nat \<Rightarrow> nat" where
  "update_every n_total = max 1 (min 5 (if n_total div 20 \<noteq> 0 then n_total div 20 else 1))"

definition zero_row :: "string \<Rightarrow> StoreRow" where
  "zero_row sid =
     \<lparr>row_store_id = sid,
      uptime_last_hour_minutes = 0,
      uptime_last_day_hours = 0,
      uptime_last_week_hours = 0,
      downtime_last_hour_minutes = 0,
      downtime_last_day_hours = 0,
      downtime_last_week_hours = 0\<rparr>"

text \<open>
  The state of the completion loop: the rows collected, the counter \<^verbatim>\<open>done\<close>, the
  job-state table, and the history of that table: its content after each
  \<^verbatim>\<open>commit()\<close> of the orchestrator, oldest first.
\<close>

record run_state =
  rows :: "StoreRow list"
  n_done :: nat
  job_state :: reports
  commits :: "reports list"

definition publish :: "string option \<Rightarrow> real \<Rightarrow> run_state \<Rightarrow> run_state" where
  "publish report_id pc st =
     (case report_id of
        None \<Rightarrow> st
      | Some rid \<Rightarrow>
          (case job_state st rid of
             None \<Rightarrow> st
           | Some rep \<Rightarrow>
               let table = (job_state st)(rid \<mapsto> rep\<lparr>percent_complete := pc\<rparr>)
               in st\<lparr>job_state := table, commits := commits st @ [table]\<rparr>))"

fun completion_loop ::
  "(string \<Rightarrow> error + StoreRow) \<Rightarrow> string option \<Rightarrow> nat \<Rightarrow> nat \<Rightarrow> string list \<Rightarrow> run_state
   \<Rightarrow> run_state" where
  "completion_loop worker report_id n_total upd [] st = st"
| "completion_loop worker report_id n_total upd (sid # rest) st =
     (let st = st\<lparr>rows := rows st @ [case worker sid of Inr result \<Rightarrow> result
                                                     | Inl err \<Rightarrow> zero_row sid]\<rparr>;
          st = st\<lparr>n_done := n_done st + 1\<rparr>;
          st = (if truthy report_id \<and> (n_done st mod upd = 0 \<or> n_done st = n_total)
                then publish report_id (real (n_done st) / real n_total * 100) st
                else st)
      in completion_loop worker report_id n_total upd rest st)"

record report_output =
  csv_rows :: "StoreRow list"
  final_job_state :: reports
  commit_log :: "reports list"

text \<open>
  \<^verbatim>\<open>generate_report\<close>.  The first pool of the source submits every store once and
  drops the results; it changes nothing that is returned or written, and is left out.
  \<open>sched\<close> is the order in which \<^verbatim>\<open>as_completed\<close> yields the futures of the second
  pool, \<open>wall_clock\<close> and \<open>finish_clock\<close> the two readings of \<^verbatim>\<open>datetime.now\<close>.
\<close>

definition generate_report ::
  "zone_db \<Rightarrow> datetime \<Rightarrow> datetime \<Rightarrow> nat list \<Rightarrow> database \<Rightarrow> reports \<Rightarrow> string option
   \<Rightarrow> report_output" where
  "generate_report zoneinfo wall_clock finish_clock sched db reps report_id =
     (let now_utc = get_now_from_db wall_clock db;
          store_ids = gather_store_ids db;
          n_total = length store_ids
      in if n_total = 0
         then \<lparr>csv_rows = [], final_job_state = reps, commit_log = []\<rparr>
         else
           let upd = update_every n_total;
               st = completion_loop
                      (\<lambda>sid. compute_uptime_for_store_internal zoneinfo db sid now_utc)
                      report_id n_total upd (as_completed sched store_ids)
                      \<lparr>rows = [], n_done = 0, job_state = reps, commits = []\<rparr>;
               df = rows st;
               st = (if truthy report_id
                     then (case report_id of
                             None \<Rightarrow> st
                           | Some rid \<Rightarrow>
                               (case job_state st rid of
                                  None \<Rightarrow> st
                                | Some rep \<Rightarrow>
                                    let table = (job_state st)
                                          (rid \<mapsto> rep\<lparr>percent_complete := 100,
                                                      finished_at := Some finish_clock\<rparr>)
                                    in st\<lparr>job_state := table,
                                          commits := commits st @ [table]\<rparr>))
                     else st)
           in \<lparr>csv_rows = df, final_job_state = job_state st, commit_log = commits st\<rparr>)"

section \<open>Job control API\<close>

datatype json = JString string | JNull

type_synonym response = "(string \<times> json) list"

definition trigger_report :: "reports \<Rightarrow> string \<Rightarrow> datetime \<Rightarrow> reports \<times> response" where
  "trigger_report reps report_id now =
     (reps(report_id \<mapsto> \<lparr>rep_status = ''Running'', percent_complete = 0, created_at = now,
                          finished_at = None, csv_path = None\<rparr>),
      [(''report_id'', JString report_id)])"

text \<open>
  \<^verbatim>\<open>_run_and_store\<close> after \<^verbatim>\<open>generate_report\<close> has ended: \<open>raised\<close> is the exception
  it raised, if any, and \<open>reps\<close> the job-state table it left.  Without a row for the
  report, \<^verbatim>\<open>rep.status = ...\<close> raises \<^verbatim>\<open>AttributeError\<close>.  The exception handler marks
  the row, when there is one, as failed.  The result is the table, and the exception
  that leaves the function, if any.
\<close>

definition run_and_store_finish ::
  "reports \<Rightarrow> error option \<Rightarrow> string \<Rightarrow> string \<Rightarrow> datetime \<Rightarrow> reports \<times> error option" where
  "run_and_store_finish reps raised report_id out_path now =
     (case (case raised of
              Some e \<Rightarrow> Inl e
            | None \<Rightarrow> (case reps report_id of None \<Rightarrow> Inl AttributeError | Some rep \<Rightarrow> Inr rep)) of
        Inr rep \<Rightarrow>
          (reps(report_id \<mapsto> rep\<lparr>rep_status := ''Complete'', csv_path := Some out_path,
                                    percent_complete := 100, finished_at := Some now\<rparr>),
           None)
      | Inl e \<Rightarrow>
          (case reps report_id of
             Some rep \<Rightarrow>
               (reps(report_id \<mapsto> rep\<lparr>rep_status := ''Failed'', percent_complete := 100,
                                         finished_at := Some now\<rparr>),
                Some e)
           | None \<Rightarrow> (reps, Some e)))"

definition get_report :: "reports \<Rightarrow> string \<Rightarrow> response" where
  "get_report reps report_id =
     (case reps report_id of
        None \<Rightarrow> [(''status'', JString ''NotFound'')]
      | Some rep \<Rightarrow>
          if rep_status rep \<noteq> ''Complete''
          then [(''status'', JString (rep_status rep))]
          else [(''status'', JString ''Complete''),
                (''csv_path'', (case csv_path rep of None \<Rightarrow> JNull | Some p \<Rightarrow> JString p))])"

section \<open>Notions used in the properties\<close>

text \<open>The total business time of a window, as \<^verbatim>\<open>_compute\<close> sums it.\<close>

definition business_seconds :: "TimeInterval list \<Rightarrow> real" where
  "business_seconds biz_intervals =
     (\<Sum>it\<leftarrow>biz_intervals. total_seconds (t_end it - t_start it))"

text \<open>The overlap of the interval from \<open>s\<close> to \<open>e\<close> with \<open>b\<close>, in microseconds.\<close>

definition overlap_us :: "datetime \<Rightarrow> datetime \<Rightarrow> TimeInterval \<Rightarrow> timedelta" where
  "overlap_us s e b = max 0 (min e (t_end b) - max s (t_start b))"

text \<open>
  An interval that lies in the window from \<open>ws\<close> to \<open>we\<close> and is not empty; a list of
  status intervals in which each interval is not empty and ends before the next starts.
\<close>

definition in_window :: "datetime \<Rightarrow> datetime \<Rightarrow> TimeInterval \<Rightarrow> bool" where
  "in_window ws we b = (ws \<le> t_start b \<and> t_start b < t_end b \<and> t_end b \<le> we)"

definition separated :: "'s status_interval list \<Rightarrow> bool" where
  "separated S =
     (list_all (\<lambda>x. fst x < fst (snd x)) S \<and> sorted_wrt (\<lambda>x y. fst (snd x) \<le> fst y) S)"

text \<open>A schedule row whose two times of day are not NULL.\<close>

definition times_present :: "BusinessHour \<Rightarrow> bool" where
  "times_present bh = (start_time_local bh \<noteq> None \<and> end_time_local bh \<noteq> None)"





text \<open>The row the orchestrator appends for a store: the worker's result, or zeros.\<close>

definition row_of :: "(string \<Rightarrow> error + StoreRow) \<Rightarrow> string \<Rightarrow> StoreRow" where
  "row_of worker sid = (case worker sid of Inr result \<Rightarrow> result | Inl err \<Rightarrow> zero_row sid)"

section \<open>Example data\<close>

text \<open>
  A zone database that knows only \<^verbatim>\<open>UTC\<close>, and a data set with two stores: \<^verbatim>\<open>E\<close>
  with one poll, and \<^verbatim>\<open>F\<close> with a time zone the database does not know.
\<close>

definition utc_zone :: tzinfo where
  "utc_zone = \<lparr>utcoffset_at_utc = (\<lambda>t. 0), utcoffset_at_local = (\<lambda>t. 0)\<rparr>"

definition utc_only :: zone_db where
  "utc_only key = (if key = ''UTC'' then Some utc_zone else None)"

definition two_stores :: database where
  "two_stores =
     \<lparr>polls = [\<lparr>poll_store_id = ''E'', timestamp_utc = Some 0, poll_status = Some ''active''\<rparr>],
      business_hours = [],
      store_timezones = [\<lparr>tz_store_id = ''F'', timezone_str = Some ''Mars/Phobos''\<rparr>,
                         \<lparr>tz_store_id = ''E'', timezone_str = Some ''UTC''\<rparr>]\<rparr>"


definition one_running :: reports where
  "one_running =
     Map.empty(''r1'' \<mapsto> \<lparr>rep_status = ''Running'', percent_complete = 0, created_at = 0,
                           finished_at = None, csv_path = None\<rparr>)"

text \<open>
  A zone database that knows only \<^verbatim>\<open>America/Chicago\<close> (six hours behind UTC), and a
  store \<^verbatim>\<open>G\<close>, open on Thursdays from 09:00 to 17:00, whose stored time zone is unknown.
\<close>

definition chicago_zone :: tzinfo where
  "chicago_zone = \<lparr>utcoffset_at_utc = (\<lambda>t. - hours 6), utcoffset_at_local = (\<lambda>t. - hours 6)\<rparr>"

definition chicago_only :: zone_db where
  "chicago_only key = (if key = ''America/Chicago'' then Some chicago_zone else None)"

definition store_G :: database where
  "store_G =
     \<lparr>polls = [],
      business_hours = [\<lparr>bh_store_id = ''G'', day_of_week = Some 3,
                          start_time_local = Some (hours 9), end_time_local = Some (hours 17)\<rparr>],
      store_timezones = [\<lparr>tz_store_id = ''G'', timezone_str = Some ''Mars/Phobos''\<rparr>]\<rparr>"

text \<open>
  A store \<^verbatim>\<open>H\<close> without schedule, in UTC, with an \<^verbatim>\<open>active\<close> poll 50 minutes and an
  \<^verbatim>\<open>inactive\<close> poll 10 minutes before the origin of time (the later one first in the
  table).
\<close>

definition store_H :: database where
  "store_H =
     \<lparr>polls = [\<lparr>poll_store_id = ''H'', timestamp_utc = Some (- 600000000),
                 poll_status = Some ''inactive''\<rparr>,
               \<lparr>poll_store_id = ''H'', timestamp_utc = Some (- 3000000000),
                 poll_status = Some ''active''\<rparr>],
      business_hours = [],
      store_timezones = [\<lparr>tz_store_id = ''H'', timezone_str = Some ''UTC''\<rparr>]\<rparr>"

section \<open>Properties of the interval merge\<close>

lemma merge_loop_absorb: "merge_loop (acc @ [r]) its = acc @ absorb r its"
proof (induction its arbitrary: acc r)
  case Nil
  then show ?case by simp
next
  case (Cons c rest)
  have "merge_loop ((acc @ [r]) @ [c]) rest = (acc @ [r]) @ absorb c rest"
    by (rule Cons.IH)
  with Cons.IH [of acc] show ?case by (simp add: Let_def)
qed

lemma merge_intervals_spec: "merge_intervals xs = merge_sorted_spec xs"
  using merge_loop_absorb [of "[]"]
  by (simp add: merge_intervals_def merge_sorted_spec_def split: list.split)

lemma points_absorb_step:
  "t_start r \<le> t_start c \<Longrightarrow> t_start c \<le> t_end r \<Longrightarrow>
   points (r\<lparr>t_end := max (t_end r) (t_end c)\<rparr>) = points r \<union> points c"
  by (auto simp: points_def)

lemma point_set_absorb:
  "sorted (map t_start (r # its)) \<Longrightarrow> point_set (absorb r its) = point_set (r # its)"
proof (induction its arbitrary: r)
  case Nil
  then show ?case by simp
next
  case (Cons c rest)
  show ?case
  proof (cases "t_start c \<le> t_end r")
    case True
    let ?r' = "r\<lparr>t_end := max (t_end r) (t_end c)\<rparr>"
    from Cons.prems have srt: "sorted (map t_start (?r' # rest))" and le: "t_start r \<le> t_start c"
      by auto
    have "point_set (absorb ?r' rest) = point_set (?r' # rest)"
      by (rule Cons.IH [OF srt])
    with True le show ?thesis
      by (simp add: point_set_def points_absorb_step Un_assoc)
  next
    case False
    from Cons.prems have "sorted (map t_start (c # rest))" by simp
    from Cons.IH [OF this] False show ?thesis
      by (simp add: point_set_def)
  qed
qed

lemma absorb_starts:
  "sorted (map t_start (r # its)) \<Longrightarrow> y \<in> set (absorb r its) \<Longrightarrow> t_start r \<le> t_start y"
proof (induction its arbitrary: r)
  case Nil
  then show ?case by simp
next
  case (Cons c rest)
  show ?case
  proof (cases "t_start c \<le> t_end r")
    case True
    let ?r' = "r\<lparr>t_end := max (t_end r) (t_end c)\<rparr>"
    from Cons.prems have srt: "sorted (map t_start (?r' # rest))" by auto
    from Cons.prems(2) True have "y \<in> set (absorb ?r' rest)" by simp
    from Cons.IH [OF srt this] show ?thesis by simp
  next
    case False
    from Cons.prems have srt: "sorted (map t_start (c # rest))" and le: "t_start r \<le> t_start c"
      by auto
    from Cons.prems(2) False have "y = r \<or> y \<in> set (absorb c rest)" by simp
    then show ?thesis using Cons.IH [OF srt] le by fastforce
  qed
qed

lemma absorb_separated:
  "sorted (map t_start (r # its)) \<Longrightarrow> sorted_wrt (\<lambda>a b. t_end a < t_start b) (absorb r its)"
proof (induction its arbitrary: r)
  case Nil
  then show ?case by simp
next
  case (Cons c rest)
  show ?case
  proof (cases "t_start c \<le> t_end r")
    case True
    let ?r' = "r\<lparr>t_end := max (t_end r) (t_end c)\<rparr>"
    from Cons.prems have srt: "sorted (map t_start (?r' # rest))" by auto
    from Cons.IH [OF srt] True show ?thesis by simp
  next
    case False
    from Cons.prems have srt: "sorted (map t_start (c # rest))" by simp
    have "t_end r < t_start y" if "y \<in> set (absorb c rest)" for y
      using absorb_starts [OF srt that] False by simp
    with Cons.IH [OF srt] False show ?thesis by simp
  qed
qed

lemma separated_disjoint:
  assumes "sorted_wrt (\<lambda>a b. t_end a < t_start b) ys"
  shows "pairwise_disjoint ys"
  unfolding pairwise_disjoint_def
proof (intro allI impI)
  fix i j assume ij: "i < length ys" "j < length ys" "i \<noteq> j"
  have key: "points (ys ! a) \<inter> points (ys ! b) = {}" if "a < b" "b < length ys" for a b
  proof -
    from assms that have "t_end (ys ! a) < t_start (ys ! b)"
      by (simp add: sorted_wrt_iff_nth_less)
    then show ?thesis by (auto simp: points_def)
  qed
  from ij consider "i < j" | "j < i" by linarith
  then show "points (ys ! i) \<inter> points (ys ! j) = {}"
  proof cases
    case 1 with key ij show ?thesis by blast
  next
    case 2 with key [of j i] ij show ?thesis by blast
  qed
qed

text \<open>
  C5.  On a sequence of intervals sorted ascending by start, the merge of the code is the
  absorbing merge of the specification (an interval whose start is at most the running
  end is absorbed, the running end becoming the greater of the two ends); its output is
  pairwise disjoint, and covers exactly the points of the input intervals.
\<close>

theorem merge_sorted_disjoint_cover:
  assumes "sorted (map t_start xs)"
  shows "merge_intervals xs = merge_sorted_spec xs
       \<and> pairwise_disjoint (merge_intervals xs)
       \<and> point_set (merge_intervals xs) = point_set xs"
proof (cases xs)
  case Nil
  then show ?thesis
    by (simp add: merge_intervals_def merge_sorted_spec_def pairwise_disjoint_def point_set_def)
next
  case (Cons r its)
  with assms have srt: "sorted (map t_start (r # its))" by simp
  have eq: "merge_intervals xs = absorb r its"
    using Cons by (simp add: merge_intervals_spec merge_sorted_spec_def)
  have spec: "merge_sorted_spec xs = absorb r its"
    using Cons by (simp add: merge_sorted_spec_def)
  have dis: "pairwise_disjoint (absorb r its)"
    by (rule separated_disjoint [OF absorb_separated [OF srt]])
  have pts: "point_set (absorb r its) = point_set xs"
    using point_set_absorb [OF srt] Cons by simp
  show ?thesis
    unfolding eq spec using dis pts by simp
qed

theorem merge_sorted_disjoint_cover_witness:
  "sorted (map t_start [\<lparr>t_start = 0, t_end = 5\<rparr>, \<lparr>t_start = 3, t_end = 8\<rparr>, \<lparr>t_start = 10, t_end = 12\<rparr>])
   \<and> merge_intervals [\<lparr>t_start = 0, t_end = 5\<rparr>, \<lparr>t_start = 3, t_end = 8\<rparr>, \<lparr>t_start = 10, t_end = 12\<rparr>]
       = [\<lparr>t_start = 0, t_end = 8\<rparr>, \<lparr>t_start = 10, t_end = 12\<rparr>]
   \<and> pairwise_disjoint [\<lparr>t_start = 0, t_end = 8\<rparr>, \<lparr>t_start = 10, t_end = 12\<rparr>]
   \<and> point_set [\<lparr>t_start = 0, t_end = 8\<rparr>, \<lparr>t_start = 10, t_end = 12\<rparr>]
       = point_set [\<lparr>t_start = 0, t_end = 5\<rparr>, \<lparr>t_start = 3, t_end = 8\<rparr>, \<lparr>t_start = 10, t_end = 12\<rparr>]"
proof -
  let ?ex = "[\<lparr>t_start = 0, t_end = 5\<rparr>, \<lparr>t_start = 3, t_end = 8\<rparr>, \<lparr>t_start = 10, t_end = 12\<rparr>]"
  have h: "sorted (map t_start ?ex)" by simp
  have m: "merge_intervals ?ex = [\<lparr>t_start = 0, t_end = 8\<rparr>, \<lparr>t_start = 10, t_end = 12\<rparr>]"
    by (simp add: merge_intervals_def)
  from merge_sorted_disjoint_cover [OF h] have
    "pairwise_disjoint (merge_intervals ?ex) \<and> point_set (merge_intervals ?ex) = point_set ?ex"
    by blast
  with h m show ?thesis by simp
qed

section \<open>Properties of status reconstruction\<close>

lemma mids_loop_map: "mids_loop ps is acc = acc @ map (mid ps) is"
  by (induction "is" arbitrary: acc) (simp_all add: mid_def)

lemma intervals_loop_map:
  "intervals_loop ps mids margin is acc =
     acc @ map (\<lambda>i. (if i > 0 then mids ! (i - 1) else fst (ps ! i) - margin,
                      if i < length ps - 1 then mids ! i else fst (ps ! i) + margin,
                      snd (ps ! i))) is"
  by (induction "is" arbitrary: acc) (simp_all add: Let_def)

lemma clip_loop_filter:
  "clip_loop lo hi xs acc = acc @ filter nonempty (map (clip lo hi) xs)"
  by (induction xs arbitrary: acc) (auto simp: Let_def clip_def nonempty_def)

lemma intervals_closed_form:
  "intervals_loop ps (mids_loop ps [0 ..< length ps - 1] []) M [0 ..< length ps] []
   = map (\<lambda>i. (interval_start ps M i, interval_end ps M i, snd (ps ! i))) [0 ..< length ps]"
proof -
  let ?F = "\<lambda>i. (if i > 0 then map (mid ps) [0 ..< length ps - 1] ! (i - 1) else fst (ps ! i) - M,
                  if i < length ps - 1 then map (mid ps) [0 ..< length ps - 1] ! i
                  else fst (ps ! i) + M,
                  snd (ps ! i))"
  have "intervals_loop ps (mids_loop ps [0 ..< length ps - 1] []) M [0 ..< length ps] []
        = map ?F [0 ..< length ps]"
    by (simp only: mids_loop_map intervals_loop_map append_Nil)
  also have "\<dots> = map (\<lambda>i. (interval_start ps M i, interval_end ps M i, snd (ps ! i)))
                      [0 ..< length ps]"
  proof (rule map_cong [OF refl])
    fix i assume "i \<in> set [0 ..< length ps]"
    then have lt: "i < length ps" by simp
    show "?F i = (interval_start ps M i, interval_end ps M i, snd (ps ! i))"
    proof (cases "i < length ps - 1")
      case True
      then show ?thesis by (auto simp: interval_start_def interval_end_def)
    next
      case False
      with lt have "i = length ps - 1" by linarith
      with False lt show ?thesis by (auto simp: interval_start_def interval_end_def)
    qed
  qed
  finally show ?thesis .
qed

lemma build_eq_spec:
  "build_status_intervals_for_window p W_start W_end M = reconstruction_spec p W_start W_end M"
proof (cases "p = []")
  case True
  then show ?thesis
    by (simp add: build_status_intervals_for_window_def reconstruction_spec_def)
next
  case False
  then show ?thesis
    unfolding build_status_intervals_for_window_def reconstruction_spec_def Let_def
      intervals_closed_form clip_loop_filter
    by (simp add: o_def)
qed

text \<open>
  C3.  Status reconstruction returns, for the polls \<open>p\<close> in the order given, the interval
  of each poll \<open>i\<close> from \<open>interval_start p M i\<close> (the midpoint before it, or the first
  poll minus the margin) to \<open>interval_end p M i\<close> (the midpoint after it, or the last poll
  plus the margin) with the status of poll \<open>i\<close>, clipped to the window widened by the
  margin, the empty ones dropped; for no polls it returns the empty list.
\<close>

theorem reconstruction_by_midpoints:
  "build_status_intervals_for_window p W_start W_end M = reconstruction_spec p W_start W_end M
 \<and> build_status_intervals_for_window [] W_start W_end M = []"
  by (simp add: build_eq_spec reconstruction_spec_def)

section \<open>Properties of the aggregator\<close>

text \<open>
  C6.  When the business time of a window is zero, the aggregator returns uptime 0 and
  downtime 0, whatever the status intervals; when the list of status intervals is empty
  and the business time is positive, it returns uptime 0 and the whole business time as
  downtime.
\<close>

theorem compute_degenerate:
  "(business_seconds B = 0 \<longrightarrow> compute S B = Inr (0, 0))
 \<and> (0 < business_seconds B \<longrightarrow> compute [] B = Inr (0, business_seconds B))"
  by (simp add: compute_def business_seconds_def)

theorem compute_degenerate_witness:
  "business_seconds [] = 0
 \<and> compute [(0, 5000000, Some ''active'')] [] = Inr (0, 0)
 \<and> 0 < business_seconds [\<lparr>t_start = 0, t_end = 2000000\<rparr>]
 \<and> compute [] [\<lparr>t_start = 0, t_end = 2000000\<rparr>] = Inr (0, 2)"
proof -
  have z: "business_seconds [] = 0"
    by (simp add: business_seconds_def)
  have p: "business_seconds [\<lparr>t_start = 0, t_end = 2000000\<rparr>] = 2"
    by (simp add: business_seconds_def total_seconds_def)
  from compute_degenerate [of "[]" "[(0, 5000000, Some ''active'')]"] z
  have a: "compute [(0, 5000000, Some ''active'')] [] = Inr (0, 0)" by simp
  from compute_degenerate [of "[\<lparr>t_start = 0, t_end = 2000000\<rparr>]"] p
  have b: "compute [] [\<lparr>t_start = 0, t_end = 2000000\<rparr>] = Inr (0, 2)" by simp
  from z p a b show ?thesis by simp
qed

section \<open>Statuses other than active\<close>

lemma status_loop_skip:
  "lower st \<noteq> ''active'' \<Longrightarrow>
   status_loop biz (S1 @ (s, e, Some st) # S2) u = status_loop biz (S1 @ S2) u"
proof (induction S1 arbitrary: u)
  case Nil
  then show ?case by (simp add: Let_def)
next
  case (Cons x S1)
  obtain a b c where x: "x = (a, b, c)" by (cases x)
  from Cons show ?case
    by (simp add: x Let_def split: option.split)
qed

lemma biz_loop_skip:
  "lower st \<noteq> ''active'' \<Longrightarrow>
   biz_loop (S1 @ (s, e, Some st) # S2) B u = biz_loop (S1 @ S2) B u"
  by (induction B arbitrary: u) (simp_all add: status_loop_skip split: sum.split)

lemma biz_loop_no_status: "biz_loop [] B u = Inr u"
  by (induction B arbitrary: u) simp_all

lemma compute_skip:
  assumes "lower st \<noteq> ''active''"
  shows "compute (S1 @ (s, e, Some st) # S2) B = compute (S1 @ S2) B"
proof (cases "S1 @ S2 = []")
  case True
  then have e: "S1 = []" "S2 = []" by simp_all
  have "biz_loop [(s, e, Some st)] B 0 = biz_loop [] B 0"
    using biz_loop_skip [OF assms, of "[]" s e "[]" B 0] by simp
  then show ?thesis
    by (simp add: e compute_def Let_def biz_loop_no_status)
next
  case False
  then have "S1 @ (s, e, Some st) # S2 \<noteq> []" by simp
  with False show ?thesis
    by (auto simp: compute_def Let_def biz_loop_skip [OF assms])
qed

lemma poll_interval_kept:
  assumes "i < length ps"
    and "max (interval_start ps M i) (W_start - M) < min (interval_end ps M i) (W_end + M)"
  shows "(max (interval_start ps M i) (W_start - M), min (interval_end ps M i) (W_end + M),
          snd (ps ! i))
         \<in> set (build_status_intervals_for_window ps W_start W_end M)"
proof -
  let ?G = "\<lambda>i. clip (W_start - M) (W_end + M)
                  (interval_start ps M i, interval_end ps M i, snd (ps ! i))"
  have g: "?G i = (max (interval_start ps M i) (W_start - M),
                   min (interval_end ps M i) (W_end + M), snd (ps ! i))"
    by (simp add: clip_def)
  from assms(2) have "nonempty (?G i)"
    by (simp add: g nonempty_def)
  moreover from assms(1) have "?G i \<in> set (map ?G [0 ..< length ps])"
    by simp
  ultimately have "?G i \<in> set (filter nonempty (map ?G [0 ..< length ps]))"
    by simp
  then show ?thesis
    by (simp only: g build_eq_spec reconstruction_spec_def)
qed

text \<open>
  C7 (as amended).  A status interval whose status, put in lower case, is not
  \<^verbatim>\<open>active\<close> contributes nothing: the aggregate of a window is the same with and
  without it.  Reconstruction carries the status string of every poll unchanged: its
  output is, in the order of the polls, the clipped interval of each poll with the
  status of that poll, left out only where clipping empties it; so the interval of a
  poll with such a status is in the output, with that status, whenever it is not empty.
\<close>

theorem non_active_status_contributes_nothing:
  assumes "lower st \<noteq> ''active''"
  shows "compute (S1 @ (s, e, Some st) # S2) B = compute (S1 @ S2) B
       \<and> build_status_intervals_for_window ps W_start W_end M
           = filter nonempty
               (map (\<lambda>i. clip (W_start - M) (W_end + M)
                            (interval_start ps M i, interval_end ps M i, snd (ps ! i)))
                    [0 ..< length ps])
       \<and> (i < length ps \<and> snd (ps ! i) = Some st
            \<and> max (interval_start ps M i) (W_start - M) < min (interval_end ps M i) (W_end + M)
          \<longrightarrow> (max (interval_start ps M i) (W_start - M),
                min (interval_end ps M i) (W_end + M), Some st)
               \<in> set (build_status_intervals_for_window ps W_start W_end M))"
proof (intro conjI impI)
  show "compute (S1 @ (s, e, Some st) # S2) B = compute (S1 @ S2) B"
    by (rule compute_skip [OF assms])
  show "build_status_intervals_for_window ps W_start W_end M
        = filter nonempty
            (map (\<lambda>i. clip (W_start - M) (W_end + M)
                         (interval_start ps M i, interval_end ps M i, snd (ps ! i)))
                 [0 ..< length ps])"
    by (simp only: build_eq_spec reconstruction_spec_def)
next
  assume h: "i < length ps \<and> snd (ps ! i) = Some st
     \<and> max (interval_start ps M i) (W_start - M) < min (interval_end ps M i) (W_end + M)"
  then have "(max (interval_start ps M i) (W_start - M), min (interval_end ps M i) (W_end + M),
              snd (ps ! i))
             \<in> set (build_status_intervals_for_window ps W_start W_end M)"
    by (intro poll_interval_kept) simp_all
  with h show "(max (interval_start ps M i) (W_start - M),
                min (interval_end ps M i) (W_end + M), Some st)
               \<in> set (build_status_intervals_for_window ps W_start W_end M)"
    by simp
qed

theorem non_active_status_contributes_nothing_witness:
  "lower ''closed'' \<noteq> ''active''
 \<and> compute ([(0, 5000000, Some ''active'')] @ (5000000, 10000000, Some ''closed'') # [])
           [\<lparr>t_start = 0, t_end = 10000000\<rparr>]
     = compute ([(0, 5000000, Some ''active'')] @ []) [\<lparr>t_start = 0, t_end = 10000000\<rparr>]
 \<and> compute ([(0, 5000000, Some ''active'')] @ []) [\<lparr>t_start = 0, t_end = 10000000\<rparr>] = Inr (5, 5)
 \<and> (0::nat) < length [(5000000 :: int, Some ''closed'')]
 \<and> snd ([(5000000 :: int, Some ''closed'')] ! 0) = Some ''closed''
 \<and> (0, 10000000, Some ''closed'')
     \<in> set (build_status_intervals_for_window [(5000000, Some ''closed'')] 0 10000000 5000000)"
proof -
  let ?ps = "[(5000000 :: int, Some ''closed'')]"
  have h: "lower ''closed'' \<noteq> ''active''"
    by (simp add: lower_def lower_char_def)
  have a: "lower ''active'' = ''active''"
    by (simp add: lower_def lower_char_def)
  have c: "compute ([(0, 5000000, Some ''active'')] @ []) [\<lparr>t_start = 0, t_end = 10000000\<rparr>]
           = Inr (5, 5)"
    by (simp add: compute_def overlap_seconds_def total_seconds_def a)
  have i: "interval_start ?ps 5000000 0 = 0" "interval_end ?ps 5000000 0 = 10000000"
    by (simp_all add: interval_start_def interval_end_def)
  note inst = non_active_status_contributes_nothing [OF h,
      where ps = ?ps and i = 0 and M = 5000000 and W_start = 0 and W_end = 10000000
        and ?S1.0 = "[(0, 5000000, Some ''active'')]" and s = 5000000 and e = 10000000
        and ?S2.0 = "[]" and B = "[\<lparr>t_start = 0, t_end = 10000000\<rparr>]"]
  from inst [THEN conjunct2, THEN conjunct2] have m: "(0, 10000000, Some ''closed'')
     \<in> set (build_status_intervals_for_window ?ps 0 10000000 5000000)"
    by (simp add: i)
  from inst have q: "compute ([(0, 5000000, Some ''active'')] @ (5000000, 10000000, Some ''closed'') # [])
           [\<lparr>t_start = 0, t_end = 10000000\<rparr>]
     = compute ([(0, 5000000, Some ''active'')] @ []) [\<lparr>t_start = 0, t_end = 10000000\<rparr>]"
    by (rule conjunct1)
  from h q c m show ?thesis by simp
qed

text \<open>
  C7 as stated fails: the status \<^verbatim>\<open>ACTIVE\<close> is neither \<^verbatim>\<open>active\<close> nor
  \<^verbatim>\<open>inactive\<close>, is kept as it is by reconstruction, and counts as uptime.
\<close>

theorem upper_case_active_counts_as_uptime:
  "''ACTIVE'' \<noteq> ''active'' \<and> ''ACTIVE'' \<noteq> ''inactive''
 \<and> build_status_intervals_for_window [(5000000, Some ''ACTIVE'')] 0 10000000 5000000
     = [(0, 10000000, Some ''ACTIVE'')]
 \<and> compute [(0, 10000000, Some ''ACTIVE'')] [\<lparr>t_start = 0, t_end = 10000000\<rparr>] = Inr (10, 0)"
proof -
  have a: "lower ''ACTIVE'' = ''active''"
    by code_simp
  have b: "build_status_intervals_for_window [(5000000, Some ''ACTIVE'')] 0 10000000 5000000
           = [(0, 10000000, Some ''ACTIVE'')]"
    by (simp add: build_status_intervals_for_window_def)
  have c: "compute [(0, 10000000, Some ''ACTIVE'')] [\<lparr>t_start = 0, t_end = 10000000\<rparr>]
           = Inr (10, 0)"
    by (simp add: compute_def overlap_seconds_def total_seconds_def a)
  from b c show ?thesis by simp
qed

section \<open>Properties of the orchestrator\<close>

lemma publish_fields [simp]:
  "rows (publish rid pc st) = rows st" "n_done (publish rid pc st) = n_done st"
  by (simp_all add: publish_def Let_def split: option.split)

lemma completion_loop_rows:
  "rows (completion_loop worker rid N k sids st) = rows st @ map (row_of worker) sids"
  by (induction sids arbitrary: st) (simp_all add: Let_def row_of_def)

lemma completion_loop_done:
  "n_done (completion_loop worker rid N k sids st) = n_done st + length sids"
  by (induction sids arbitrary: st) (simp_all add: Let_def)

lemma as_completed_mset: "mset (as_completed sched xs) = mset xs"
proof (induction sched xs rule: as_completed.induct)
  case (1 sched pending)
  show ?case
  proof (cases "pending = []")
    case True
    then show ?thesis by (simp add: as_completed.simps)
  next
    case False
    define k where "k = (case sched of [] \<Rightarrow> 0 | c # _ \<Rightarrow> c mod length pending)"
    from False have k: "k < length pending"
      by (simp add: k_def split: list.split)
    have ih: "mset (as_completed (tl sched) (take k pending @ drop (Suc k) pending))
              = mset (take k pending @ drop (Suc k) pending)"
      using "1.IH" [OF False k_def] .
    have "mset pending = mset (take k pending @ pending ! k # drop (Suc k) pending)"
      using k by (simp add: id_take_nth_drop [symmetric])
    then have "mset pending = add_mset (pending ! k) (mset (take k pending @ drop (Suc k) pending))"
      by simp
    moreover have "as_completed sched pending
       = (pending ! k) # as_completed (tl sched) (take k pending @ drop (Suc k) pending)"
      using False by (subst as_completed.simps) (simp add: k_def Let_def)
    ultimately show ?thesis using ih by simp
  qed
qed

lemma worker_store_id:
  "compute_uptime_for_store_internal zoneinfo db sid now = Inr r \<Longrightarrow> row_store_id r = sid"
  by (auto simp: compute_uptime_for_store_internal_def Let_def split: sum.splits prod.splits)

lemma row_of_store_id:
  "row_store_id (row_of (\<lambda>sid. compute_uptime_for_store_internal zoneinfo db sid now) sid) = sid"
  by (auto simp: row_of_def zero_row_def worker_store_id split: sum.split)

lemma csv_rows_eq:
  "csv_rows (generate_report zoneinfo wall_clock finish_clock sched db reps report_id)
   = map (row_of (\<lambda>sid. compute_uptime_for_store_internal zoneinfo db sid
                           (get_now_from_db wall_clock db)))
         (as_completed sched (gather_store_ids db))"
proof (cases "gather_store_ids db = []")
  case True
  then show ?thesis by (simp add: generate_report_def as_completed.simps)
next
  case False
  then show ?thesis
    by (simp add: generate_report_def Let_def completion_loop_rows split: option.split)
qed

lemma csv_rows_order:
  "map row_store_id
     (csv_rows (generate_report zoneinfo wall_clock finish_clock sched db reps report_id))
   = as_completed sched (gather_store_ids db)"
  by (simp add: csv_rows_eq o_def row_of_store_id)














lemma gather_two_stores: "gather_store_ids two_stores = [''E'', ''F'']"
  by (simp add: gather_store_ids_def two_stores_def sorted_list_of_set_sort_remdups)

lemma gather_set:
  "set (gather_store_ids db)
   = set (map poll_store_id (polls db)) \<union> set (map bh_store_id (business_hours db))
     \<union> set (map tz_store_id (store_timezones db))"
  by (simp add: gather_store_ids_def Let_def)

lemma gather_sorted_distinct: "sorted (gather_store_ids db) \<and> distinct (gather_store_ids db)"
  by (simp add: gather_store_ids_def Let_def)






text \<open>
  C1 (as amended).  The rows of the written CSV are in the order in which
  \<^verbatim>\<open>as_completed\<close> yields the futures of the workers, and nothing sorts them afterwards:
  their store ids are the ascending, duplicate-free list of store ids taken in that
  order, a permutation of it.
\<close>

theorem csv_rows_in_yield_order:
  "map row_store_id
     (csv_rows (generate_report zoneinfo wall_clock finish_clock sched db reps report_id))
   = as_completed sched (gather_store_ids db)
 \<and> mset (map row_store_id
     (csv_rows (generate_report zoneinfo wall_clock finish_clock sched db reps report_id)))
   = mset (gather_store_ids db)
 \<and> sorted (gather_store_ids db) \<and> distinct (gather_store_ids db)"
  by (simp add: csv_rows_order as_completed_mset gather_sorted_distinct)

text \<open>
  C1 as stated fails: with stores \<^verbatim>\<open>E\<close> and \<^verbatim>\<open>F\<close>, when the future of \<^verbatim>\<open>F\<close> is
  yielded first, the row of \<^verbatim>\<open>F\<close> is written first.
\<close>

theorem csv_rows_not_sorted:
  "gather_store_ids two_stores = [''E'', ''F'']
 \<and> map row_store_id (csv_rows (generate_report utc_only 0 0 [1] two_stores Map.empty None))
     = [''F'', ''E'']
 \<and> \<not> sorted (map row_store_id
         (csv_rows (generate_report utc_only 0 0 [1] two_stores Map.empty None)))"
proof -
  have c: "as_completed [1] [''E'', ''F''] = [''F'', ''E'']"
    by (simp add: as_completed.simps)
  have "\<not> sorted [''F'', ''E'']" by simp
  with c show ?thesis
    by (simp add: csv_rows_order gather_two_stores)
qed

text \<open>
  C8.  The written CSV has exactly one row for each store id that appears in the polls,
  the schedules or the time zones, and the row of a store whose aggregation raises has
  zeros in its six numeric columns; the report is written all the same.
\<close>

theorem one_row_per_store:
  fixes zoneinfo :: zone_db and wall_clock finish_clock :: datetime and sched :: "nat list"
    and db :: database and reps :: reports and report_id :: "string option"
  defines "R \<equiv> csv_rows (generate_report zoneinfo wall_clock finish_clock sched db reps report_id)"
  shows "distinct (map row_store_id R)
       \<and> set (map row_store_id R)
           = set (map poll_store_id (polls db)) \<union> set (map bh_store_id (business_hours db))
             \<union> set (map tz_store_id (store_timezones db))
       \<and> (\<forall>r \<in> set R.
            (\<exists>err. compute_uptime_for_store_internal zoneinfo db (row_store_id r)
                      (get_now_from_db wall_clock db) = Inl err)
            \<longrightarrow> r = zero_row (row_store_id r))"
proof -
  let ?w = "\<lambda>sid. compute_uptime_for_store_internal zoneinfo db sid (get_now_from_db wall_clock db)"
  have ids: "map row_store_id R = as_completed sched (gather_store_ids db)"
    unfolding R_def by (rule csv_rows_order)
  have ms: "mset (map row_store_id R) = mset (gather_store_ids db)"
    by (simp add: ids as_completed_mset)
  have d: "distinct (map row_store_id R)"
    using mset_eq_imp_distinct_iff [OF ms] gather_sorted_distinct [of db] by simp
  have s: "set (map row_store_id R) = set (gather_store_ids db)"
    using ms by (rule mset_eq_setD)
  have z: "r = zero_row (row_store_id r)"
    if "r \<in> set R" and "?w (row_store_id r) = Inl err" for r err
  proof -
    from that(1) obtain sid where r: "r = row_of ?w sid"
      unfolding R_def csv_rows_eq by auto
    then have "row_store_id r = sid" by (simp add: row_of_store_id)
    with that(2) r show ?thesis by (simp add: row_of_def)
  qed
  have z': "\<forall>r \<in> set R. (\<exists>err. ?w (row_store_id r) = Inl err) \<longrightarrow> r = zero_row (row_store_id r)"
    using z by blast
  from d s z' show ?thesis unfolding gather_set by blast
qed

lemma tzF: "get_timezone_for_store two_stores ''F'' = ''Mars/Phobos''"
  by (simp add: get_timezone_for_store_def two_stores_def)

lemma bizF: "get_business_intervals_for_window utc_only db ''F'' ws we (Some ''Mars/Phobos'')
   = Inl ZoneInfoNotFoundError"
  by (simp add: get_business_intervals_for_window_def utc_only_def DEFAULT_TZ_def)

lemma store_F_raises:
  "compute_uptime_for_store_internal utc_only two_stores ''F'' now = Inl ZoneInfoNotFoundError"
  unfolding compute_uptime_for_store_internal_def Let_def tzF bizF by simp

theorem one_row_per_store_witness:
  "compute_uptime_for_store_internal utc_only two_stores ''F'' (get_now_from_db 0 two_stores)
     = Inl ZoneInfoNotFoundError
 \<and> set (map row_store_id
          (csv_rows (generate_report utc_only 0 0 [] two_stores Map.empty None))) = {''E'', ''F''}
 \<and> zero_row ''F'' \<in> set (csv_rows (generate_report utc_only 0 0 [] two_stores Map.empty None))"
proof -
  let ?R = "csv_rows (generate_report utc_only 0 0 [] two_stores Map.empty None)"
  note inst = one_row_per_store [of utc_only 0 0 "[]" two_stores Map.empty None]
  from inst have "set (map row_store_id ?R)
      = set (map poll_store_id (polls two_stores)) \<union> set (map bh_store_id (business_hours two_stores))
        \<union> set (map tz_store_id (store_timezones two_stores))"
    by blast
  then have ids: "set (map row_store_id ?R) = {''E'', ''F''}"
    by (simp add: two_stores_def insert_commute)
  then have "''F'' \<in> row_store_id ` set ?R" by simp
  then obtain r where r': "''F'' = row_store_id r" and rin: "r \<in> set ?R" by (rule imageE)
  from r' rin have r: "r \<in> set ?R" "row_store_id r = ''F''" by simp_all
  from inst r(1) have "(\<exists>err. compute_uptime_for_store_internal utc_only two_stores (row_store_id r)
                      (get_now_from_db 0 two_stores) = Inl err) \<longrightarrow> r = zero_row (row_store_id r)"
    by blast
  with r(2) store_F_raises have "r = zero_row ''F''" by simp
  with r(1) ids store_F_raises show ?thesis by simp
qed

section \<open>Properties of the job control API\<close>

lemma publish_status:
  "map_option rep_status (job_state (publish report_id pc st) r) = map_option rep_status (job_state st r)"
  by (simp add: publish_def Let_def split: option.split)

lemma completion_loop_status:
  "map_option rep_status (job_state (completion_loop worker report_id N k sids st) r)
   = map_option rep_status (job_state st r)"
  by (induction sids arbitrary: st) (simp_all add: Let_def publish_status)

lemma generate_report_status:
  "map_option rep_status
     (final_job_state (generate_report zoneinfo wall_clock finish_clock sched db reps report_id) r)
   = map_option rep_status (reps r)"
proof -
  let ?w = "\<lambda>sid. compute_uptime_for_store_internal zoneinfo db sid (get_now_from_db wall_clock db)"
  let ?N = "length (gather_store_ids db)"
  let ?st = "completion_loop ?w report_id ?N (update_every ?N)
               (as_completed sched (gather_store_ids db))
               \<lparr>rows = [], n_done = 0, job_state = reps, commits = []\<rparr>"
  have "map_option rep_status (job_state ?st r) = map_option rep_status (reps r)"
    by (simp add: completion_loop_status)
  then show ?thesis
    by (auto simp: generate_report_def Let_def split: option.split)
qed

text \<open>
  C4 (as amended).  \<^verbatim>\<open>get_report\<close> answers \<^verbatim>\<open>{status: NotFound}\<close> for an unknown id;
  for a known id whose stored status is not \<^verbatim>\<open>Complete\<close> it answers the stored status
  and nothing else: \<^verbatim>\<open>{status: Running}\<close> after the trigger and while the report is
  generated, \<^verbatim>\<open>{status: Failed}\<close> after a failed run; after a successful run it
  answers \<^verbatim>\<open>{status: Complete, csv_path}\<close>.
\<close>

theorem get_report_responses:
  "(reps rid = None \<longrightarrow> get_report reps rid = [(''status'', JString ''NotFound'')])
 \<and> (reps rid = Some rep \<and> rep_status rep \<noteq> ''Complete'' \<longrightarrow>
      get_report reps rid = [(''status'', JString (rep_status rep))])
 \<and> (reps rid = Some rep \<and> rep_status rep = ''Complete'' \<longrightarrow>
      get_report reps rid
        = [(''status'', JString ''Complete''),
           (''csv_path'', (case csv_path rep of None \<Rightarrow> JNull | Some p \<Rightarrow> JString p))])
 \<and> get_report (fst (trigger_report reps rid now)) rid = [(''status'', JString ''Running'')]
 \<and> (reps rid = Some rep \<and> rep_status rep = ''Running'' \<longrightarrow>
      get_report
        (final_job_state (generate_report zoneinfo wall_clock finish_clock sched db reps report_id))
        rid = [(''status'', JString ''Running'')])
 \<and> (reps rid = Some rep \<longrightarrow>
      get_report (fst (run_and_store_finish reps None rid out_path now)) rid
        = [(''status'', JString ''Complete''), (''csv_path'', JString out_path)])
 \<and> (reps rid = Some rep \<longrightarrow>
      get_report (fst (run_and_store_finish reps (Some err) rid out_path now)) rid
        = [(''status'', JString ''Failed'')])"
proof -
  have running: "get_report
        (final_job_state (generate_report zoneinfo wall_clock finish_clock sched db reps report_id))
        rid = [(''status'', JString ''Running'')]"
    if "reps rid = Some rep" "rep_status rep = ''Running''"
  proof -
    from that generate_report_status [of zoneinfo wall_clock finish_clock sched db reps report_id rid]
    obtain rep' where "final_job_state
        (generate_report zoneinfo wall_clock finish_clock sched db reps report_id) rid = Some rep'"
      and "rep_status rep' = ''Running''"
      by auto
    then show ?thesis by (simp add: get_report_def)
  qed
  show ?thesis
    using running
    by (simp add: get_report_def trigger_report_def run_and_store_finish_def)
qed

text \<open>
  C4 as stated fails: the answer for a running job has no \<^verbatim>\<open>percent_complete\<close>.
\<close>

theorem get_report_running_has_no_percent:
  "get_report (fst (trigger_report Map.empty ''r1'' 0)) ''r1'' = [(''status'', JString ''Running'')]
 \<and> map_of (get_report (fst (trigger_report Map.empty ''r1'' 0)) ''r1'') ''percent_complete'' = None"
  by (simp add: get_report_def trigger_report_def)


theorem get_report_responses_witness:
  "Map.empty ''r1'' = (None :: Report option)
 \<and> get_report Map.empty ''r1'' = [(''status'', JString ''NotFound'')]
 \<and> one_running ''r1'' \<noteq> None
 \<and> get_report one_running ''r1'' = [(''status'', JString ''Running'')]
 \<and> get_report
       (final_job_state (generate_report utc_only 0 0 [] two_stores one_running (Some ''r1'')))
       ''r1'' = [(''status'', JString ''Running'')]
 \<and> get_report (fst (run_and_store_finish one_running None ''r1'' ''/app/data/reports/r1.csv'' 7))
       ''r1''
     = [(''status'', JString ''Complete''), (''csv_path'', JString ''/app/data/reports/r1.csv'')]
 \<and> get_report (fst (run_and_store_finish one_running (Some OSError) ''r1'' ''/app/data/reports/r1.csv'' 7))
       ''r1''
     = [(''status'', JString ''Failed'')]"
proof -
  let ?rep = "\<lparr>rep_status = ''Running'', percent_complete = 0, created_at = 0,
                finished_at = None, csv_path = None\<rparr>"
  have e: "Map.empty ''r1'' = (None :: Report option)" by simp
  have r: "one_running ''r1'' = Some ?rep" by (simp add: one_running_def)
  have s: "rep_status ?rep = ''Running''" "rep_status ?rep \<noteq> ''Complete''" by simp_all
  note a = get_report_responses [where reps = Map.empty and rid = "''r1''"]
  note b = get_report_responses [where reps = one_running and rid = "''r1''" and rep = ?rep
      and zoneinfo = utc_only and wall_clock = 0 and finish_clock = 0 and sched = "[]"
      and db = two_stores and report_id = "Some ''r1''" and out_path = "''/app/data/reports/r1.csv''"
      and now = 7 and err = OSError]
  from a e have 1: "get_report Map.empty ''r1'' = [(''status'', JString ''NotFound'')]"
    by blast
  from b r s have 2: "get_report one_running ''r1'' = [(''status'', JString ''Running'')]"
    by simp
  from b r s have 3: "get_report
       (final_job_state (generate_report utc_only 0 0 [] two_stores one_running (Some ''r1'')))
       ''r1'' = [(''status'', JString ''Running'')]"
    by blast
  from b r have 4: "get_report
       (fst (run_and_store_finish one_running None ''r1'' ''/app/data/reports/r1.csv'' 7)) ''r1''
     = [(''status'', JString ''Complete''), (''csv_path'', JString ''/app/data/reports/r1.csv'')]"
    by blast
  from b r have 5: "get_report
       (fst (run_and_store_finish one_running (Some OSError) ''r1'' ''/app/data/reports/r1.csv'' 7)) ''r1''
     = [(''status'', JString ''Failed'')]"
    by blast
  from e r 1 2 3 4 5 show ?thesis by simp
qed

section \<open>Properties of business-hours expansion\<close>

lemma rows_loop_returns:
  "\<forall>bh \<in> set bhs. times_present bh \<Longrightarrow> \<exists>B. rows_loop tz ws we d bhs biz = Inr B"
proof (induction bhs arbitrary: biz)
  case Nil
  then show ?case by simp
next
  case (Cons bh bhs)
  from Cons.prems obtain st et where t: "start_time_local bh = Some st" "end_time_local bh = Some et"
    by (auto simp: times_present_def)
  from Cons.prems have rest: "\<forall>bh \<in> set bhs. times_present bh" by simp
  show ?case
    using Cons.IH [OF rest] by (simp add: t Let_def)
qed

lemma fold_group_subset:
  "\<forall>k l. m k = Some l \<longrightarrow> set l \<subseteq> A \<Longrightarrow> set bhs \<subseteq> A \<Longrightarrow>
   fold (\<lambda>bh m. m(day_of_week bh \<mapsto> (case m (day_of_week bh) of None \<Rightarrow> [] | Some l \<Rightarrow> l) @ [bh]))
        bhs m k = Some l \<Longrightarrow> set l \<subseteq> A"
proof (induction bhs arbitrary: m)
  case Nil
  then show ?case by simp
next
  case (Cons bh bhs)
  let ?m' = "m(day_of_week bh \<mapsto> (case m (day_of_week bh) of None \<Rightarrow> [] | Some l \<Rightarrow> l) @ [bh])"
  have inv: "\<forall>k' l'. ?m' k' = Some l' \<longrightarrow> set l' \<subseteq> A"
  proof (intro allI impI)
    fix k' l' assume a: "?m' k' = Some l'"
    show "set l' \<subseteq> A"
    proof (cases "k' = day_of_week bh")
      case False
      with a Cons.prems(1) show ?thesis by simp
    next
      case True
      show ?thesis
      proof (cases "m (day_of_week bh)")
        case None
        with a True Cons.prems(2) show ?thesis by auto
      next
        case (Some old)
        with Cons.prems(1) have "set old \<subseteq> A" by blast
        with a True Some Cons.prems(2) show ?thesis by auto
      qed
    qed
  qed
  from Cons.prems(2) have sub: "set bhs \<subseteq> A" by simp
  from Cons.prems(3) have "fold (\<lambda>bh m. m(day_of_week bh \<mapsto> (case m (day_of_week bh) of None \<Rightarrow> [] | Some l \<Rightarrow> l) @ [bh])) bhs ?m' k = Some l"
    by (simp only: fold_simps)
  from Cons.IH [OF inv sub this] show ?case .
qed

lemma group_by_dow_subset: "group_by_dow bhs k = Some l \<Longrightarrow> set l \<subseteq> set bhs"
  unfolding group_by_dow_def by (rule fold_group_subset [where m = Map.empty]) simp_all

lemma dates_loop_returns:
  "\<forall>k l. m k = Some l \<longrightarrow> (\<forall>bh \<in> set l. times_present bh) \<Longrightarrow>
   \<exists>B. dates_loop tz m ws we cur_date end_date biz = Inr B"
proof (induction tz m ws we cur_date end_date biz rule: dates_loop.induct)
  case (1 tz m ws we cur_date end_date biz)
  show ?case
  proof (cases "cur_date \<le> end_date")
    case False
    then show ?thesis by (simp add: dates_loop.simps)
  next
    case True
    let ?day_rows = "case m (Some (weekday cur_date)) of None \<Rightarrow> [] | Some l \<Rightarrow> l"
    have "\<forall>bh \<in> set ?day_rows. times_present bh"
    proof (cases "m (Some (weekday cur_date))")
      case None
      then show ?thesis by simp
    next
      case (Some l)
      with "1.prems" show ?thesis by simp
    qed
    from rows_loop_returns [OF this] obtain B where
      B: "rows_loop tz ws we cur_date ?day_rows biz = Inr B" by blast
    from "1.IH" [OF True refl refl B "1.prems"] obtain B' where
      "dates_loop tz m ws we (cur_date + 1) end_date B = Inr B'" by blast
    with True B show ?thesis
      by (subst dates_loop.simps) (simp add: Let_def)
  qed
qed

lemma fallback_zone:
  assumes "zoneinfo tz = None"
  shows "get_business_intervals_for_window zoneinfo db store_id ws we (Some tz)
       = get_business_intervals_for_window zoneinfo db store_id ws we (Some DEFAULT_TZ)"
  using assms
  by (simp add: get_business_intervals_for_window_def Let_def DEFAULT_TZ_def split: option.split)

lemma expansion_returns:
  assumes "zoneinfo DEFAULT_TZ = Some z"
    and "\<forall>bh \<in> set (business_hours db). bh_store_id bh = store_id \<longrightarrow> times_present bh"
  shows "\<exists>B. get_business_intervals_for_window zoneinfo db store_id ws we tz_str = Inr B"
proof -
  let ?name = "case tz_str of None \<Rightarrow> DEFAULT_TZ | Some s \<Rightarrow> if s \<noteq> [] then s else DEFAULT_TZ"
  let ?bh = "filter (\<lambda>bh. bh_store_id bh = store_id) (business_hours db)"
  from assms(1) have
    "\<exists>tz. (case zoneinfo ?name of Some tz \<Rightarrow> Some tz | None \<Rightarrow> zoneinfo DEFAULT_TZ) = Some tz"
    by (cases "zoneinfo ?name") simp_all
  then obtain tz where
    tz: "(case zoneinfo ?name of Some tz \<Rightarrow> Some tz | None \<Rightarrow> zoneinfo DEFAULT_TZ) = Some tz"
    by blast
  have "\<forall>k l. group_by_dow ?bh k = Some l \<longrightarrow> (\<forall>bh \<in> set l. times_present bh)"
    using group_by_dow_subset [of ?bh] assms(2) by fastforce
  from dates_loop_returns [where m = "group_by_dow ?bh", OF this] obtain B where
    "dates_loop tz (group_by_dow ?bh) ws we (local_date tz ws - 1) (local_date tz we + 1) [] = Inr B"
    by blast
  then show ?thesis
    unfolding get_business_intervals_for_window_def Let_def tz by simp
qed


text \<open>
  C10.  When the zone database does not know the time-zone string of a store, while it
  knows the default zone \<^verbatim>\<open>America/Chicago\<close>, business-hours expansion gives what it
  gives for the default zone; and it returns intervals, not an exception, when moreover
  no schedule row of the store has a NULL time.
\<close>

theorem invalid_timezone_uses_default:
  assumes "zoneinfo tz = None" and "zoneinfo DEFAULT_TZ = Some z"
    and "\<forall>bh \<in> set (business_hours db). bh_store_id bh = store_id \<longrightarrow> times_present bh"
  shows "get_business_intervals_for_window zoneinfo db store_id ws we (Some tz)
         = get_business_intervals_for_window zoneinfo db store_id ws we (Some DEFAULT_TZ)
       \<and> (\<exists>B. get_business_intervals_for_window zoneinfo db store_id ws we (Some tz) = Inr B)"
  using fallback_zone [where zoneinfo = zoneinfo and tz = tz, OF assms(1)]
    expansion_returns [where zoneinfo = zoneinfo and db = db, OF assms(2,3)]
  by simp

lemma store_G_default:
  "get_business_intervals_for_window chicago_only store_G ''G'' (hours 12) (hours 36)
     (Some DEFAULT_TZ) = Inr [\<lparr>t_start = hours 15, t_end = hours 23\<rparr>]"
  by (simp add: get_business_intervals_for_window_def DEFAULT_TZ_def chicago_only_def
      chicago_zone_def store_G_def group_by_dow_def local_date_def hours_def days_def
      dates_loop.simps weekday_def combine_def local_to_utc_def merge_intervals_def Let_def)

theorem invalid_timezone_uses_default_witness:
  "chicago_only ''Mars/Phobos'' = None \<and> chicago_only DEFAULT_TZ = Some chicago_zone
 \<and> list_all times_present (filter (\<lambda>bh. bh_store_id bh = ''G'') (business_hours store_G))
 \<and> get_timezone_for_store store_G ''G'' = ''Mars/Phobos''
 \<and> get_business_intervals_for_window chicago_only store_G ''G'' (hours 12) (hours 36)
       (Some ''Mars/Phobos'') = Inr [\<lparr>t_start = hours 15, t_end = hours 23\<rparr>]"
proof -
  have a: "chicago_only ''Mars/Phobos'' = None"
    by (simp add: chicago_only_def)
  have b: "chicago_only DEFAULT_TZ = Some chicago_zone"
    by (simp add: chicago_only_def DEFAULT_TZ_def)
  have c: "\<forall>bh \<in> set (business_hours store_G). bh_store_id bh = ''G'' \<longrightarrow> times_present bh"
    by (simp add: store_G_def times_present_def)
  have d: "get_timezone_for_store store_G ''G'' = ''Mars/Phobos''"
    by (simp add: get_timezone_for_store_def store_G_def)
  have e: "list_all times_present (filter (\<lambda>bh. bh_store_id bh = ''G'') (business_hours store_G))"
    by (simp add: store_G_def times_present_def)
  from invalid_timezone_uses_default [where zoneinfo = chicago_only and tz = "''Mars/Phobos''"
      and db = store_G and store_id = "''G''" and ws = "hours 12" and we = "hours 36", OF a b c]
    store_G_default
  have "get_business_intervals_for_window chicago_only store_G ''G'' (hours 12) (hours 36)
       (Some ''Mars/Phobos'') = Inr [\<lparr>t_start = hours 15, t_end = hours 23\<rparr>]"
    by simp
  with a b d e show ?thesis by simp
qed

section \<open>Uptime and downtime partition the business time\<close>

lemma total_seconds_add: "total_seconds (a + b) = total_seconds a + total_seconds b"
  by (simp add: total_seconds_def add_divide_distrib)

lemma total_seconds_mono: "a \<le> b \<Longrightarrow> total_seconds a \<le> total_seconds b"
  by (simp add: total_seconds_def divide_right_mono)

lemma total_seconds_zero [simp]: "total_seconds 0 = 0"
  by (simp add: total_seconds_def)

lemma total_seconds_nonneg: "0 \<le> a \<Longrightarrow> 0 \<le> total_seconds a"
  using total_seconds_mono [of 0 a] by simp

lemma overlap_seconds_us:
  "overlap_seconds \<lparr>t_start = s, t_end = e\<rparr> b = total_seconds (overlap_us s e b)"
proof -
  have "max 0 (total_seconds d) = total_seconds (max 0 d)" for d
    by (simp add: max_def total_seconds_def)
  then show ?thesis
    by (simp add: overlap_seconds_def overlap_us_def Let_def)
qed

lemma overlap_us_chain:
  "separated (x # S) \<Longrightarrow>
   (\<Sum>y\<leftarrow>x # S. overlap_us (fst y) (fst (snd y)) b) \<le> max 0 (t_end b - max (fst x) (t_start b))"
proof (induction S arbitrary: x)
  case Nil
  then show ?case by (simp add: overlap_us_def)
next
  case (Cons y S)
  from Cons.prems have sep: "separated (y # S)"
    and ord: "fst x < fst (snd x)" "fst (snd x) \<le> fst y"
    by (simp_all add: separated_def)
  have "(\<Sum>z\<leftarrow>y # S. overlap_us (fst z) (fst (snd z)) b) \<le> max 0 (t_end b - max (fst y) (t_start b))"
    by (rule Cons.IH [OF sep])
  moreover have "overlap_us (fst x) (fst (snd x)) b + max 0 (t_end b - max (fst y) (t_start b))
                 \<le> max 0 (t_end b - max (fst x) (t_start b))"
    using ord unfolding overlap_us_def by linarith
  ultimately show ?case by simp
qed

lemma overlap_us_total:
  assumes "separated S" and "t_start b \<le> t_end b"
  shows "(\<Sum>y\<leftarrow>S. overlap_us (fst y) (fst (snd y)) b) \<le> t_end b - t_start b"
proof (cases S)
  case Nil
  with assms(2) show ?thesis by simp
next
  case (Cons x S')
  with overlap_us_chain [of x S' b] assms show ?thesis by fastforce
qed

lemma overlap_us_nonneg: "0 \<le> overlap_us s e b"
  by (simp add: overlap_us_def)


lemma status_loop_bounds:
  "status_loop b S u0 = Inr u \<Longrightarrow>
   u0 \<le> u \<and> u \<le> u0 + total_seconds (\<Sum>y\<leftarrow>S. overlap_us (fst y) (fst (snd y)) b)"
proof (induction S arbitrary: u0)
  case Nil
  then show ?case by simp
next
  case (Cons x S)
  obtain s e st where x: "x = (s, e, st)" by (cases x)
  let ?o = "total_seconds (overlap_us s e b)"
  have o: "0 \<le> ?o" by (rule total_seconds_nonneg [OF overlap_us_nonneg])
  from Cons.prems obtain u1 where u1: "status_loop b S u1 = Inr u" "u0 \<le> u1" "u1 \<le> u0 + ?o"
    using o by (auto simp: x overlap_seconds_us Let_def split: if_splits option.splits)
  from Cons.IH [OF u1(1)] u1(2,3) show ?case
    by (simp add: x total_seconds_add)
qed

lemma status_loop_le:
  assumes "status_loop b S u0 = Inr u" and "separated S" and "t_start b \<le> t_end b"
  shows "u0 \<le> u \<and> u \<le> u0 + total_seconds (t_end b - t_start b)"
  using status_loop_bounds [OF assms(1)] total_seconds_mono [OF overlap_us_total [OF assms(2,3)]]
  by linarith

lemma biz_loop_le:
  "biz_loop S B u0 = Inr u \<Longrightarrow> separated S \<Longrightarrow> \<forall>b \<in> set B. t_start b \<le> t_end b \<Longrightarrow>
   u0 \<le> u \<and> u \<le> u0 + business_seconds B"
proof (induction B arbitrary: u0)
  case Nil
  then show ?case by (simp add: business_seconds_def)
next
  case (Cons b B)
  from Cons.prems(1) obtain u1 where
    u1: "status_loop b S u0 = Inr u1" "biz_loop S B u1 = Inr u"
    by (auto split: sum.splits)
  from Cons.prems(3) have b: "t_start b \<le> t_end b" and B: "\<forall>b \<in> set B. t_start b \<le> t_end b"
    by simp_all
  from status_loop_le [OF u1(1) Cons.prems(2) b] Cons.IH [OF u1(2) Cons.prems(2) B]
  show ?case by (simp add: business_seconds_def)
qed

lemma business_seconds_nonneg:
  "\<forall>b \<in> set B. t_start b \<le> t_end b \<Longrightarrow> 0 \<le> business_seconds B"
  by (induction B) (simp_all add: business_seconds_def total_seconds_nonneg)

lemma compute_partition:
  assumes "compute S B = Inr (u, d)" and "separated S" and "\<forall>b \<in> set B. t_start b \<le> t_end b"
  shows "0 \<le> u \<and> 0 \<le> d \<and> u + d = business_seconds B"
proof -
  have nn: "0 \<le> business_seconds B" by (rule business_seconds_nonneg [OF assms(3)])
  show ?thesis
  proof (cases "business_seconds B \<le> 0")
    case True
    with assms(1) nn show ?thesis
      by (simp add: compute_def business_seconds_def)
  next
    case pos: False
    show ?thesis
    proof (cases "S = []")
      case True
      with assms(1) pos show ?thesis
        by (simp add: compute_def business_seconds_def)
    next
      case False
      with assms(1) pos obtain u' where
        u': "biz_loop S B 0 = Inr u'" "u = max 0 u'" "d = max 0 (business_seconds B - u')"
        by (auto simp: compute_def business_seconds_def Let_def split: sum.splits)
      from biz_loop_le [OF u'(1) assms(2,3)] u'(2,3) show ?thesis by simp
    qed
  qed
qed

lemma rows_loop_window:
  "rows_loop tz ws we d bhs biz = Inr biz' \<Longrightarrow> \<forall>b \<in> set biz. in_window ws we b \<Longrightarrow>
   \<forall>b \<in> set biz'. in_window ws we b"
proof (induction bhs arbitrary: biz)
  case Nil
  then show ?case by simp
next
  case (Cons bh bhs)
  from Cons.prems(1) obtain st et where t: "start_time_local bh = Some st" "end_time_local bh = Some et"
    by (auto split: option.splits)
  let ?s = "combine d st"
  let ?e = "if combine d et \<le> ?s then combine d et + days 1 else combine d et"
  let ?is = "max (local_to_utc tz ?s) ws"
  let ?ie = "min (local_to_utc tz ?e) we"
  have step: "rows_loop tz ws we d (bh # bhs) biz
              = (if ?ie > ?is
                 then rows_loop tz ws we d bhs (biz @ [\<lparr>t_start = ?is, t_end = ?ie\<rparr>])
                 else rows_loop tz ws we d bhs biz)"
    by (simp add: t Let_def)
  from Cons.prems(1) have run:
    "(if ?ie > ?is
      then rows_loop tz ws we d bhs (biz @ [\<lparr>t_start = ?is, t_end = ?ie\<rparr>])
      else rows_loop tz ws we d bhs biz) = Inr biz'"
    unfolding step .
  show ?case
  proof (cases "?ie > ?is")
    case True
    with run have run': "rows_loop tz ws we d bhs (biz @ [\<lparr>t_start = ?is, t_end = ?ie\<rparr>]) = Inr biz'"
      by (simp only: if_True)
    from True have "in_window ws we \<lparr>t_start = ?is, t_end = ?ie\<rparr>"
      unfolding in_window_def by simp
    with Cons.prems(2) have "\<forall>b \<in> set (biz @ [\<lparr>t_start = ?is, t_end = ?ie\<rparr>]). in_window ws we b"
      by simp
    from Cons.IH [OF run' this] show ?thesis .
  next
    case False
    with run have "rows_loop tz ws we d bhs biz = Inr biz'"
      by (simp only: if_False)
    from Cons.IH [OF this Cons.prems(2)] show ?thesis .
  qed
qed

lemma dates_loop_window:
  "dates_loop tz m ws we cur_date end_date biz = Inr biz' \<Longrightarrow>
   \<forall>b \<in> set biz. in_window ws we b \<Longrightarrow> \<forall>b \<in> set biz'. in_window ws we b"
proof (induction tz m ws we cur_date end_date biz rule: dates_loop.induct)
  case (1 tz m ws we cur_date end_date biz)
  show ?case
  proof (cases "cur_date \<le> end_date")
    case False
    with "1.prems" show ?thesis by (simp add: dates_loop.simps)
  next
    case True
    let ?day_rows = "case m (Some (weekday cur_date)) of None \<Rightarrow> [] | Some l \<Rightarrow> l"
    from True "1.prems"(1) obtain biz1 where
      b1: "rows_loop tz ws we cur_date ?day_rows biz = Inr biz1"
      and b2: "dates_loop tz m ws we (cur_date + 1) end_date biz1 = Inr biz'"
      by (subst (asm) dates_loop.simps) (auto simp: Let_def split: sum.splits)
    from rows_loop_window [OF b1 "1.prems"(2)]
    have "\<forall>b \<in> set biz1. in_window ws we b" .
    from "1.IH" [OF True refl refl b1 b2 this] show ?thesis .
  qed
qed

lemma absorb_window:
  "in_window ws we r \<Longrightarrow> \<forall>b \<in> set its. in_window ws we b \<Longrightarrow>
   \<forall>b \<in> set (absorb r its). in_window ws we b"
proof (induction its arbitrary: r)
  case Nil
  then show ?case by simp
next
  case (Cons c rest)
  from Cons.prems have c: "in_window ws we c" and rest: "\<forall>b \<in> set rest. in_window ws we b"
    by simp_all
  from Cons.prems(1) c have "in_window ws we (r\<lparr>t_end := max (t_end r) (t_end c)\<rparr>)"
    by (auto simp: in_window_def)
  from Cons.IH [OF this rest] Cons.IH [OF c rest] Cons.prems(1) show ?case by simp
qed

lemma merge_intervals_window:
  "\<forall>b \<in> set xs. in_window ws we b \<Longrightarrow> \<forall>b \<in> set (merge_intervals xs). in_window ws we b"
proof (cases xs)
  case Nil
  then show ?thesis by (simp add: merge_intervals_def)
next
  case (Cons r its)
  assume "\<forall>b \<in> set xs. in_window ws we b"
  with Cons have "in_window ws we r" "\<forall>b \<in> set its. in_window ws we b" by simp_all
  from absorb_window [OF this] Cons show ?thesis
    by (simp add: merge_intervals_spec merge_sorted_spec_def)
qed

lemma expansion_window:
  assumes "get_business_intervals_for_window zoneinfo db store_id ws we tz_str = Inr B"
    and "ws < we"
  shows "\<forall>b \<in> set B. in_window ws we b"
proof -
  let ?name = "case tz_str of None \<Rightarrow> DEFAULT_TZ | Some s \<Rightarrow> if s \<noteq> [] then s else DEFAULT_TZ"
  let ?bh = "filter (\<lambda>bh. bh_store_id bh = store_id) (business_hours db)"
  from assms(1) obtain tz where
    tz: "(case zoneinfo ?name of Some tz \<Rightarrow> Some tz | None \<Rightarrow> zoneinfo DEFAULT_TZ) = Some tz"
    unfolding get_business_intervals_for_window_def Let_def
    by (cases "case zoneinfo ?name of Some tz \<Rightarrow> Some tz | None \<Rightarrow> zoneinfo DEFAULT_TZ") simp_all
  show ?thesis
  proof (cases "?bh = []")
    case True
    with assms show ?thesis
      unfolding get_business_intervals_for_window_def Let_def tz
      by (auto simp: in_window_def)
  next
    case False
    with assms(1) obtain biz where
      biz: "dates_loop tz (group_by_dow ?bh) ws we (local_date tz ws - 1) (local_date tz we + 1) []
            = Inr biz"
      and B: "B = (if biz = [] then [] else merge_intervals (sort_key t_start biz))"
      unfolding get_business_intervals_for_window_def Let_def tz
      by (auto split: sum.splits if_splits)
    from dates_loop_window [OF biz] have "\<forall>b \<in> set biz. in_window ws we b" by simp
    then have "\<forall>b \<in> set (sort_key t_start biz). in_window ws we b" by simp
    from merge_intervals_window [OF this] B show ?thesis by simp
  qed
qed

lemma in_window_overlap:
  "in_window ws we b \<Longrightarrow>
   overlap_seconds b \<lparr>t_start = ws, t_end = we\<rparr> = total_seconds (t_end b - t_start b)"
  by (simp add: in_window_def overlap_seconds_def Let_def max_def min_def total_seconds_def)

lemma td_div2_bounds: "0 \<le> d \<Longrightarrow> 0 \<le> td_div2 d \<and> td_div2 d \<le> d"
  unfolding td_div2_def Let_def by presburger

lemma mid_between:
  assumes "sorted (map fst p)" and "Suc i < length p"
  shows "fst (p ! i) \<le> mid p i \<and> mid p i \<le> fst (p ! Suc i)"
proof -
  from assms have "map fst p ! i \<le> map fst p ! Suc i"
    by (intro sorted_nth_mono) simp_all
  with assms(2) have "fst (p ! i) \<le> fst (p ! Suc i)" by simp
  with td_div2_bounds [of "fst (p ! Suc i) - fst (p ! i)"] show ?thesis
    by (simp add: mid_def)
qed

lemma mid_mono:
  assumes "sorted (map fst p)" and "i \<le> k" and "Suc k < length p"
  shows "mid p i \<le> mid p k"
proof (cases "i = k")
  case True
  then show ?thesis by simp
next
  case False
  with assms(2) have lt: "Suc i \<le> k" by simp
  from assms have "map fst p ! Suc i \<le> map fst p ! k"
    using lt by (intro sorted_nth_mono) simp_all
  with assms(3) lt have "fst (p ! Suc i) \<le> fst (p ! k)" by simp
  moreover from mid_between [OF assms(1), of i] assms(3) lt have "mid p i \<le> fst (p ! Suc i)" by simp
  moreover from mid_between [OF assms(1,3)] have "fst (p ! k) \<le> mid p k" by simp
  ultimately show ?thesis by linarith
qed

lemma interval_end_le_start:
  assumes "sorted (map fst p)" and "i < j" and "j < length p"
  shows "interval_end p M i \<le> interval_start p M j"
proof -
  from assms(2,3) have "i < length p - 1" "0 < j" by simp_all
  then have "interval_end p M i = mid p i" "interval_start p M j = mid p (j - 1)"
    by (simp_all add: interval_end_def interval_start_def)
  moreover from assms(2,3) have "i \<le> j - 1" "Suc (j - 1) < length p" by simp_all
  ultimately show ?thesis
    using mid_mono [OF assms(1), of i "j - 1"] by simp
qed

lemma build_separated:
  assumes "sorted (map fst p)"
  shows "separated (build_status_intervals_for_window p W_start W_end M)"
proof -
  let ?f = "\<lambda>i. clip (W_start - M) (W_end + M)
                  (interval_start p M i, interval_end p M i, snd (p ! i))"
  have ord: "sorted_wrt (\<lambda>x y. fst (snd x) \<le> fst y) (map ?f [0 ..< length p])"
  proof -
    have "fst (snd (?f i)) \<le> fst (?f j)" if "i < j" "j < length p" for i j
      using interval_end_le_start [OF assms that, of M] by (simp add: clip_def)
    then show ?thesis
      by (simp add: sorted_wrt_iff_nth_less del: upt_Suc)
  qed
  have "sorted_wrt (\<lambda>x y. fst (snd x) \<le> fst y) (filter nonempty (map ?f [0 ..< length p]))"
    by (rule sorted_wrt_filter [OF ord])
  moreover have "list_all (\<lambda>x. fst x < fst (snd x)) (filter nonempty (map ?f [0 ..< length p]))"
    by (auto simp: list_all_iff nonempty_def)
  ultimately show ?thesis
    by (simp add: build_eq_spec reconstruction_spec_def separated_def)
qed

lemma fetch_sorted: "sorted (map fst (fetch_polls_for_store db store_id ws we margin))"
  by (simp add: fetch_polls_for_store_def Let_def ensure_aware_utc_def o_def)

text \<open>
  C2.  For each of the three trailing windows (one hour, 24 hours, seven days before
  \<open>now_utc\<close>), with the business intervals \<open>B\<close> that expansion returns for the window and
  the status intervals reconstructed from the polls fetched for the store, the pair that
  the aggregator computes has a non-negative uptime and a non-negative downtime, and
  their sum is the total duration of the business intervals intersected with the window
  (exactly, in the arithmetic of the model).
\<close>

theorem uptime_downtime_partition:
  assumes "window_start \<in> {now_utc - hours 1, now_utc - hours 24, now_utc - days 7}"
    and "get_business_intervals_for_window zoneinfo db store_id window_start now_utc tz_str = Inr B"
    and "compute
           (build_status_intervals_for_window
              (fetch_polls_for_store db store_id (now_utc - days 7 - days 1) (now_utc + hours 1)
                 (hours 12))
              (now_utc - days 7 - days 1) (now_utc + hours 1) (hours 12))
           B = Inr (uptime, downtime)"
  shows "0 \<le> uptime \<and> 0 \<le> downtime
       \<and> uptime + downtime
           = (\<Sum>b\<leftarrow>B. overlap_seconds b \<lparr>t_start = window_start, t_end = now_utc\<rparr>)"
proof -
  from assms(1) have lt: "window_start < now_utc"
    by (auto simp: hours_def days_def)
  have win: "\<forall>b \<in> set B. in_window window_start now_utc b"
    by (rule expansion_window [OF assms(2) lt])
  then have ne: "\<forall>b \<in> set B. t_start b \<le> t_end b"
    by (auto simp: in_window_def)
  have sep: "separated
           (build_status_intervals_for_window
              (fetch_polls_for_store db store_id (now_utc - days 7 - days 1) (now_utc + hours 1)
                 (hours 12))
              (now_utc - days 7 - days 1) (now_utc + hours 1) (hours 12))"
    by (rule build_separated [OF fetch_sorted])
  have "(\<Sum>b\<leftarrow>B. overlap_seconds b \<lparr>t_start = window_start, t_end = now_utc\<rparr>)
        = business_seconds B"
    unfolding business_seconds_def using win
    by (intro arg_cong [where f = sum_list] map_cong refl in_window_overlap) simp
  with compute_partition [OF assms(3) sep ne] show ?thesis by simp
qed

lemma fetch_H:
  "fetch_polls_for_store store_H ''H'' (- 600000000 - days 7 - days 1) (- 600000000 + hours 1)
     (hours 12)
   = [(- 3000000000, Some ''active''), (- 600000000, Some ''inactive'')]"
  by (simp add: fetch_polls_for_store_def store_H_def List.map_filter_def hours_def days_def
      ensure_aware_utc_def)

lemma build_H:
  "build_status_intervals_for_window
     [(- 3000000000, Some ''active''), (- 600000000, Some ''inactive'')]
     (- 600000000 - days 7 - days 1) (- 600000000 + hours 1) (hours 12)
   = [(- 46200000000, - 1800000000, Some ''active''),
      (- 1800000000, 42600000000, Some ''inactive'')]"
  by (simp add: build_status_intervals_for_window_def hours_def days_def td_div2_def)

lemma biz_H:
  "get_business_intervals_for_window utc_only store_H ''H'' (- 600000000 - hours 1) (- 600000000)
     (Some ''UTC'')
   = Inr [\<lparr>t_start = - 4200000000, t_end = - 600000000\<rparr>]"
  by (simp add: get_business_intervals_for_window_def utc_only_def store_H_def hours_def)

lemma lower_active: "lower ''active'' = ''active''" "lower ''inactive'' \<noteq> ''active''"
  by (simp_all add: lower_def lower_char_def)

lemma compute_H:
  "compute [(- 46200000000, - 1800000000, Some ''active''),
            (- 1800000000, 42600000000, Some ''inactive'')]
     [\<lparr>t_start = - 4200000000, t_end = - 600000000\<rparr>] = Inr (2400, 1200)"
  by (simp add: compute_def overlap_seconds_def total_seconds_def lower_active)

theorem uptime_downtime_partition_witness:
  "- 600000000 - hours 1 \<in> {- 600000000 - hours 1, - 600000000 - hours 24, - 600000000 - days 7}
 \<and> get_now_from_db 0 store_H = - 600000000
 \<and> get_business_intervals_for_window utc_only store_H ''H'' (- 600000000 - hours 1) (- 600000000)
      (Some ''UTC'') = Inr [\<lparr>t_start = - 4200000000, t_end = - 600000000\<rparr>]
 \<and> compute
      (build_status_intervals_for_window
         (fetch_polls_for_store store_H ''H'' (- 600000000 - days 7 - days 1)
            (- 600000000 + hours 1) (hours 12))
         (- 600000000 - days 7 - days 1) (- 600000000 + hours 1) (hours 12))
      [\<lparr>t_start = - 4200000000, t_end = - 600000000\<rparr>] = Inr (2400, 1200)
 \<and> (2400::real) + 1200
     = (\<Sum>b\<leftarrow>[\<lparr>t_start = - 4200000000, t_end = - 600000000\<rparr>].
          overlap_seconds b \<lparr>t_start = - 600000000 - hours 1, t_end = - 600000000\<rparr>)"
proof -
  have a: "- 600000000 - hours 1
           \<in> {- 600000000 - hours 1, - 600000000 - hours 24, - 600000000 - days 7}"
    by simp
  have n: "get_now_from_db 0 store_H = - 600000000"
    by (simp add: get_now_from_db_def store_H_def List.map_filter_def ensure_aware_utc_def)
  have c: "compute
      (build_status_intervals_for_window
         (fetch_polls_for_store store_H ''H'' (- 600000000 - days 7 - days 1)
            (- 600000000 + hours 1) (hours 12))
         (- 600000000 - days 7 - days 1) (- 600000000 + hours 1) (hours 12))
      [\<lparr>t_start = - 4200000000, t_end = - 600000000\<rparr>] = Inr (2400, 1200)"
    by (simp only: fetch_H build_H compute_H)
  from uptime_downtime_partition [OF a biz_H c] a n biz_H c show ?thesis
    by simp
qed

end
